theory Spec2Isabelle
  imports Complex_Main "HOL-Library.Word" "HOL-Library.Log_Nat" "HOL-Library.Multiset"
begin

section \<open>Go values\<close>

text \<open>
  The released binaries are built for amd64 only (the build workflow), where Go's
  \<open>int\<close> is a 64-bit two's complement integer: \<open>+\<close> wraps, comparisons read the
  signed value (\<open>sint\<close>).
\<close>

type_synonym go_int = "64 word"

text \<open>
  A \<open>float64\<close> is an IEEE 754 binary64 value: a sign and a magnitude (a finite
  rational that the format can represent, or infinity), or NaN. The sign is \<open>True\<close> for a
  negative value, so \<open>Fin True 0\<close> is the negative zero. Every operation computes the exact
  result and rounds it to the nearest representable value, ties to even, as Go does.
  The type also has values that no \<open>float64\<close> has (a magnitude that is negative or not
  representable); nothing below assumes them away, so what is proved of every value of
  the type holds of every \<open>float64\<close>.
\<close>

datatype f64 = Fin bool rat | Inf bool | NaN

definition pow2 :: "int \<Rightarrow> rat" where
  "pow2 e = (if 0 \<le> e then 2 ^ nat e else 1 / 2 ^ nat (- e))"

text \<open>The exponent of a positive rational: \<open>pow2 (ilog2 x) \<le> x < pow2 (ilog2 x + 1)\<close>.\<close>

definition ilog2 :: "rat \<Rightarrow> int" where
  "ilog2 x = (case quotient_of x of (p, q) \<Rightarrow>
     (let d = bitlen p - bitlen q in if pow2 d \<le> x then d else d - 1))"

definition round_half_even :: "rat \<Rightarrow> int" where
  "round_half_even m =
     (let f = \<lfloor>m\<rfloor>; d = m - of_int f
      in if d < 1 / 2 then f else if 1 / 2 < d then f + 1 else if even f then f else f + 1)"

text \<open>
  Rounding a magnitude \<open>x \<ge> 0\<close> with sign \<open>sg\<close>: 53 significant bits, the exponent at
  least \<open>-1022\<close> (below, the subnormal numbers share the quantum \<open>2^-1074\<close>), overflow to
  infinity.
\<close>

definition f64_round :: "bool \<Rightarrow> rat \<Rightarrow> f64" where
  "f64_round sg x =
     (if x = 0 then Fin sg 0
      else let e = max (ilog2 x) (- 1022); q = pow2 (e - 52);
               r = of_int (round_half_even (x / q)) * q
           in if pow2 1024 \<le> r then Inf sg else Fin sg r)"

text \<open>The conversion \<open>float64(n)\<close> of an integer.\<close>

definition f64_of_int :: "int \<Rightarrow> f64" where
  "f64_of_int n = f64_round (n < 0) (of_int \<bar>n\<bar>)"

definition with_sign :: "bool \<Rightarrow> rat \<Rightarrow> rat" where
  "with_sign sg m = (if sg then - m else m)"

fun f64_add :: "f64 \<Rightarrow> f64 \<Rightarrow> f64" where
  "f64_add NaN y = NaN"
| "f64_add x NaN = NaN"
| "f64_add (Inf a) (Inf b) = (if a = b then Inf a else NaN)"
| "f64_add (Inf a) (Fin b n) = Inf a"
| "f64_add (Fin a m) (Inf b) = Inf b"
| "f64_add (Fin a m) (Fin b n) =
     (let v = with_sign a m + with_sign b n
      in if v = 0 then Fin (a \<and> b) 0 else f64_round (v < 0) \<bar>v\<bar>)"

fun f64_mul :: "f64 \<Rightarrow> f64 \<Rightarrow> f64" where
  "f64_mul NaN y = NaN"
| "f64_mul x NaN = NaN"
| "f64_mul (Inf a) (Inf b) = Inf (a \<noteq> b)"
| "f64_mul (Inf a) (Fin b n) = (if n = 0 then NaN else Inf (a \<noteq> b))"
| "f64_mul (Fin a m) (Inf b) = (if m = 0 then NaN else Inf (a \<noteq> b))"
| "f64_mul (Fin a m) (Fin b n) = f64_round (a \<noteq> b) (m * n)"

fun f64_div :: "f64 \<Rightarrow> f64 \<Rightarrow> f64" where
  "f64_div NaN y = NaN"
| "f64_div x NaN = NaN"
| "f64_div (Inf a) (Inf b) = NaN"
| "f64_div (Inf a) (Fin b n) = Inf (a \<noteq> b)"
| "f64_div (Fin a m) (Inf b) = Fin (a \<noteq> b) 0"
| "f64_div (Fin a m) (Fin b n) =
     (if n = 0 then (if m = 0 then NaN else Inf (a \<noteq> b)) else f64_round (a \<noteq> b) (m / n))"

fun is_zero :: "f64 \<Rightarrow> bool" where
  "is_zero (Fin sg m) = (m = 0)"
| "is_zero x = False"

section \<open>The types of pkg/types\<close>

type_synonym LLMProvider = string

record ProviderStats =
  Name :: LLMProvider
  TotalUses :: go_int
  SuccessfulUses :: go_int
  FailedUses :: go_int
  ProviderTotalCost :: f64
  ProviderTotalTokensUsed :: go_int
  ProviderAverageGenerationTime :: f64
  FirstUsed :: string
  LastUsed :: string
  SuccessRate :: f64

text \<open>
  \<open>map[LLMProvider]*ProviderStats\<close>: the map itself may be nil (\<open>None\<close>), and a key may
  hold a nil pointer (\<open>Some None\<close> at that key). Nothing shares a \<open>ProviderStats\<close>
  object, so an entry is held by value.
\<close>

type_synonym provider_map = "(LLMProvider \<rightharpoonup> ProviderStats option) option"

record UsageStats =
  TotalGenerations :: go_int
  SuccessfulGenerations :: go_int
  FailedGenerations :: go_int
  ProviderStats :: provider_map
  FirstUse :: string
  LastUse :: string
  TotalCost :: f64
  TotalTokensUsed :: go_int
  CacheHits :: go_int
  CacheMisses :: go_int
  AverageGenerationTime :: f64

text \<open>
  Modelled from the spec: the field \<open>CacheChecked\<close>, which \<open>RecordGeneration\<close> reads, is
  missing from the declaration of \<open>GenerationEvent\<close> in pkg/types/types.go; the spec lists
  "whether the cache was checked" among the fields of the event.
\<close>

record GenerationEvent =
  Provider :: LLMProvider
  Success :: bool
  GenerationTime :: f64
  TokensUsed :: go_int
  Cost :: f64
  CacheChecked :: bool
  CacheHit :: bool
  Timestamp :: string
  ErrorMessage :: string

section \<open>Errors, the operating system and the libraries\<close>

datatype os_error = ErrNotExist | ErrPermission | ErrIO

datatype json_error = SyntaxError string | UnmarshalTypeError string | UnsupportedValueError string

datatype error =
    PathError os_error
  | JsonError json_error
  | ErrorString string
  | Wrapped string error

text \<open>\<open>os.IsNotExist\<close> looks at the error itself; it does not unwrap \<open>%w\<close>.\<close>

fun IsNotExist :: "error \<Rightarrow> bool" where
  "IsNotExist (PathError e) = (e = ErrNotExist)"
| "IsNotExist e = False"

text \<open>
  The file system maps a path to the content of the file there. Whether a system call
  fails for a reason of the operating system's own (permissions, a full disk) is an input
  of the call that makes it.
\<close>

type_synonym file_system = "string \<rightharpoonup> string"

record os_faults =
  ReadFile_fault :: "os_error option"
  MkdirAll_fault :: "os_error option"
  WriteFile_fault :: "os_error option"

definition os_ReadFile :: "os_faults \<Rightarrow> file_system \<Rightarrow> string \<Rightarrow> error + string" where
  "os_ReadFile flt fs path =
     (case ReadFile_fault flt of
        Some e \<Rightarrow> Inl (PathError e)
      | None \<Rightarrow> (case fs path of None \<Rightarrow> Inl (PathError ErrNotExist) | Some data \<Rightarrow> Inr data))"

definition os_MkdirAll :: "os_faults \<Rightarrow> file_system \<Rightarrow> string \<Rightarrow> error option" where
  "os_MkdirAll flt fs path = map_option PathError (MkdirAll_fault flt)"

definition os_WriteFile ::
  "os_faults \<Rightarrow> file_system \<Rightarrow> string \<Rightarrow> string \<Rightarrow> error option \<times> file_system" where
  "os_WriteFile flt fs path data =
     (case WriteFile_fault flt of
        Some e \<Rightarrow> (Some (PathError e), fs)
      | None \<Rightarrow> (None, fs(path \<mapsto> data)))"

text \<open>
  What the program calls outside this package: \<open>StoreUtils.GetConfigPath\<close>,
  \<open>filepath.Dir\<close>, \<open>filepath.Join\<close>, \<open>json.MarshalIndent\<close> and \<open>json.Unmarshal\<close>.
  \<open>json.Unmarshal\<close> writes into the value it is given and may have written a part of it
  when it fails, so it returns the value too.
\<close>

record lib =
  GetConfigPath :: "error + string"
  filepath_Dir :: "string \<Rightarrow> string"
  filepath_Join :: "string \<Rightarrow> string \<Rightarrow> string"
  json_MarshalIndent :: "UsageStats \<Rightarrow> json_error + string"
  json_Unmarshal :: "string \<Rightarrow> UsageStats \<Rightarrow> json_error option \<times> UsageStats"

section \<open>The statistics manager\<close>

text \<open>
  The mutex is left out: every method holds it from entry to exit, so the calls are the
  atomic steps of the model.
\<close>

record StatsManager =
  stats :: UsageStats
  filePath :: string

text \<open>The zero value of \<open>ProviderStats\<close> and of \<open>UsageStats\<close>, the map made empty.\<close>

definition zero_ProviderStats :: ProviderStats where
  "zero_ProviderStats =
     \<lparr>Name = [], TotalUses = 0, SuccessfulUses = 0, FailedUses = 0,
      ProviderTotalCost = Fin False 0, ProviderTotalTokensUsed = 0,
      ProviderAverageGenerationTime = Fin False 0, FirstUsed = [], LastUsed = [],
      SuccessRate = Fin False 0\<rparr>"

definition fresh_UsageStats :: UsageStats where
  "fresh_UsageStats =
     \<lparr>TotalGenerations = 0, SuccessfulGenerations = 0, FailedGenerations = 0,
      ProviderStats = Some Map.empty, FirstUse = [], LastUse = [],
      TotalCost = Fin False 0, TotalTokensUsed = 0, CacheHits = 0, CacheMisses = 0,
      AverageGenerationTime = Fin False 0\<rparr>"

definition load :: "lib \<Rightarrow> os_faults \<Rightarrow> file_system \<Rightarrow> StatsManager \<Rightarrow> error option \<times> StatsManager" where
  "load l flt fs sm =
     (case os_ReadFile flt fs (filePath sm) of
        Inl err \<Rightarrow> (Some err, sm)
      | Inr data \<Rightarrow>
          if length data = 0 then (None, sm)
          else (case json_Unmarshal l data (stats sm) of
                  (err, st) \<Rightarrow> (map_option JsonError err, sm\<lparr>stats := st\<rparr>)))"

definition save :: "lib \<Rightarrow> os_faults \<Rightarrow> file_system \<Rightarrow> StatsManager \<Rightarrow> error option \<times> file_system" where
  "save l flt fs sm =
     (case os_MkdirAll flt fs (filepath_Dir l (filePath sm)) of
        Some err \<Rightarrow> (Some (Wrapped ''failed to create stats directory'' err), fs)
      | None \<Rightarrow>
          (case json_MarshalIndent l (stats sm) of
             Inl err \<Rightarrow> (Some (Wrapped ''failed to marshal stats'' (JsonError err)), fs)
           | Inr data \<Rightarrow> os_WriteFile flt fs (filePath sm) data))"

definition NewStatsManager :: "lib \<Rightarrow> os_faults \<Rightarrow> file_system \<Rightarrow> error + StatsManager" where
  "NewStatsManager l flt fs =
     (case GetConfigPath l of
        Inl err \<Rightarrow> Inl (Wrapped ''failed to get config path'' err)
      | Inr configPath \<Rightarrow>
          (let configDir = filepath_Dir l configPath;
               statsPath = filepath_Join l configDir ''usage_stats.json'';
               manager = \<lparr>stats = fresh_UsageStats, filePath = statsPath\<rparr>
           in case load l flt fs manager of
                (Some err, manager') \<Rightarrow>
                  if \<not> IsNotExist err then Inl (Wrapped ''failed to load existing stats'' err)
                  else Inr manager'
              | (None, manager') \<Rightarrow> Inr manager'))"

subsection \<open>RecordGeneration\<close>

text \<open>
  A call returns the error of \<open>save\<close> (or none), or it panics; either way the manager is
  left as the statements that ran have made it.
\<close>

datatype outcome = Returns "error option" | Panics string

text \<open>Lines 59 to 85: the global counters, the timestamps, the cache counters, the average.\<close>

definition update_global :: "string \<Rightarrow> GenerationEvent \<Rightarrow> UsageStats \<Rightarrow> UsageStats" where
  "update_global now event s0 =
     (let s1 = s0\<lparr>TotalGenerations := TotalGenerations s0 + 1\<rparr>;
          s2 = (if Success event
                then s1\<lparr>SuccessfulGenerations := SuccessfulGenerations s1 + 1\<rparr>
                else s1\<lparr>FailedGenerations := FailedGenerations s1 + 1\<rparr>);
          s3 = s2\<lparr>TotalCost := f64_add (TotalCost s2) (Cost event)\<rparr>;
          s4 = s3\<lparr>TotalTokensUsed := TotalTokensUsed s3 + TokensUsed event\<rparr>;
          s5 = s4\<lparr>LastUse := now\<rparr>;
          s6 = (if FirstUse s5 = [] then s5\<lparr>FirstUse := now\<rparr> else s5);
          s7 = (if CacheChecked event
                then (if CacheHit event
                      then s6\<lparr>CacheHits := CacheHits s6 + 1\<rparr>
                      else s6\<lparr>CacheMisses := CacheMisses s6 + 1\<rparr>)
                else s6);
          totalTime = f64_mul (AverageGenerationTime s7)
                        (f64_of_int (sint (TotalGenerations s7 - 1)))
      in s7\<lparr>AverageGenerationTime :=
              f64_div (f64_add totalTime (GenerationTime event))
                (f64_of_int (sint (TotalGenerations s7)))\<rparr>)"

text \<open>Lines 95 to 114: the entry of the event's provider.\<close>

definition update_provider :: "string \<Rightarrow> GenerationEvent \<Rightarrow> ProviderStats \<Rightarrow> ProviderStats" where
  "update_provider now event p0 =
     (let p1 = p0\<lparr>TotalUses := TotalUses p0 + 1\<rparr>;
          p2 = (if Success event
                then p1\<lparr>SuccessfulUses := SuccessfulUses p1 + 1\<rparr>
                else p1\<lparr>FailedUses := FailedUses p1 + 1\<rparr>);
          p3 = p2\<lparr>ProviderTotalCost := f64_add (ProviderTotalCost p2) (Cost event)\<rparr>;
          p4 = p3\<lparr>ProviderTotalTokensUsed := ProviderTotalTokensUsed p3 + TokensUsed event\<rparr>;
          p5 = p4\<lparr>LastUsed := now\<rparr>;
          totalProviderTime = f64_mul (ProviderAverageGenerationTime p5)
                                (f64_of_int (sint (TotalUses p5 - 1)));
          p6 = p5\<lparr>ProviderAverageGenerationTime :=
                    f64_div (f64_add totalProviderTime (GenerationTime event))
                      (f64_of_int (sint (TotalUses p5)))\<rparr>
      in if 0 < sint (TotalUses p6)
         then p6\<lparr>SuccessRate :=
                   f64_mul (f64_div (f64_of_int (sint (SuccessfulUses p6)))
                                    (f64_of_int (sint (TotalUses p6))))
                           (f64_of_int 100)\<rparr>
         else p6)"

text \<open>
  \<open>now\<close> is \<open>time.Now().UTC().Format(time.RFC3339)\<close>, an input of the call. Reading a key
  of a nil map gives nil, and the assignment of line 89 then panics.
\<close>

definition RecordGeneration ::
  "lib \<Rightarrow> os_faults \<Rightarrow> string \<Rightarrow> GenerationEvent \<Rightarrow> StatsManager \<times> file_system
     \<Rightarrow> outcome \<times> StatsManager \<times> file_system" where
  "RecordGeneration l flt now event = (\<lambda>(sm, fs).
     (let s8 = update_global now event (stats sm)
      in case ProviderStats s8 of
           None \<Rightarrow> (Panics ''assignment to entry in nil map'', sm\<lparr>stats := s8\<rparr>, fs)
         | Some m \<Rightarrow>
             (let providerStats =
                    (case m (Provider event) of
                       Some (Some p) \<Rightarrow> p
                     | _ \<Rightarrow> zero_ProviderStats\<lparr>Name := Provider event, FirstUsed := now\<rparr>);
                  m' = m(Provider event \<mapsto> Some (update_provider now event providerStats));
                  sm' = sm\<lparr>stats := s8\<lparr>ProviderStats := Some m'\<rparr>\<rparr>
              in case save l flt fs sm' of (err, fs') \<Rightarrow> (Returns err, sm', fs'))))"

text \<open>
  A sequence of calls, each with its own faults, time and event. The caller goes on
  after an error; a panic ends the process.
\<close>

fun RecordGenerations ::
  "lib \<Rightarrow> (os_faults \<times> string \<times> GenerationEvent) list \<Rightarrow> StatsManager \<times> file_system
     \<Rightarrow> outcome list \<times> StatsManager \<times> file_system" where
  "RecordGenerations l [] st = ([], st)"
| "RecordGenerations l ((flt, now, event) # calls) st =
     (case RecordGeneration l flt now event st of
        (Panics msg, st') \<Rightarrow> ([Panics msg], st')
      | (Returns err, st') \<Rightarrow>
          (case RecordGenerations l calls st' of (outs, st'') \<Rightarrow> (Returns err # outs, st'')))"

subsection \<open>The derived rates\<close>

definition GetSuccessRate :: "StatsManager \<Rightarrow> f64" where
  "GetSuccessRate sm =
     (if TotalGenerations (stats sm) = 0 then Fin False 0
      else f64_mul (f64_div (f64_of_int (sint (SuccessfulGenerations (stats sm))))
                            (f64_of_int (sint (TotalGenerations (stats sm)))))
                   (f64_of_int 100))"

definition GetCacheHitRate :: "StatsManager \<Rightarrow> f64" where
  "GetCacheHitRate sm =
     (let totalCacheAttempts = CacheHits (stats sm) + CacheMisses (stats sm)
      in if totalCacheAttempts = 0 then Fin False 0
         else f64_mul (f64_div (f64_of_int (sint (CacheHits (stats sm))))
                               (f64_of_int (sint totalCacheAttempts)))
                      (f64_of_int 100))"

subsection \<open>GetProviderRanking\<close>

record providerUsage =
  provider :: LLMProvider
  uses :: go_int

text \<open>
  The first loop ranges over the map in an order that Go leaves open: \<open>order\<close> is the
  order in which this run of the loop meets the keys. Reading \<open>TotalUses\<close> through a nil
  entry panics; a nil map has no keys.
\<close>

fun collect :: "(LLMProvider \<rightharpoonup> ProviderStats option) \<Rightarrow> LLMProvider list
    \<Rightarrow> providerUsage list \<Rightarrow> string + providerUsage list" where
  "collect m [] rankings = Inr rankings"
| "collect m (k # ks) rankings =
     (case m k of
        Some (Some st) \<Rightarrow> collect m ks (rankings @ [\<lparr>provider = k, uses = TotalUses st\<rparr>])
      | _ \<Rightarrow> Inl ''invalid memory address or nil pointer dereference'')"

function inner_loop :: "nat \<Rightarrow> nat \<Rightarrow> providerUsage list \<Rightarrow> providerUsage list" where
  "inner_loop i j rankings =
     (if j < length rankings
      then inner_loop i (j + 1)
             (if sint (uses (rankings ! i)) < sint (uses (rankings ! j))
              then rankings[i := rankings ! j, j := rankings ! i]
              else rankings)
      else rankings)"
  by pat_completeness auto
termination
  by (relation "measure (\<lambda>(i, j, rankings). length rankings - j)") auto

declare inner_loop.simps [simp del]

function outer_loop :: "nat \<Rightarrow> providerUsage list \<Rightarrow> providerUsage list" where
  "outer_loop i rankings =
     (if i + 1 < length rankings
      then outer_loop (i + 1) (inner_loop i (i + 1) rankings)
      else rankings)"
  by pat_completeness auto
termination
proof (relation "measure (\<lambda>(i, rankings). length rankings - i)")
  have len: "length (inner_loop i j rankings) = length rankings" for i j rankings
  proof (induction i j rankings rule: inner_loop.induct)
    case (1 i j rankings)
    show ?case
    proof (cases "j < length rankings")
      case True
      with 1 show ?thesis by (subst inner_loop.simps) simp
    next
      case False
      then show ?thesis by (subst inner_loop.simps) simp
    qed
  qed
  fix i :: nat and rankings :: "providerUsage list"
  assume "i + 1 < length rankings"
  then show "((i + 1, inner_loop i (i + 1) rankings), (i, rankings))
               \<in> measure (\<lambda>(i, rankings). length rankings - i)"
    by (simp add: len)
qed simp

declare outer_loop.simps [simp del]

definition GetProviderRanking :: "LLMProvider list \<Rightarrow> StatsManager \<Rightarrow> string + LLMProvider list" where
  "GetProviderRanking keys sm =
     (case collect (case ProviderStats (stats sm) of None \<Rightarrow> Map.empty | Some m \<Rightarrow> m) keys [] of
        Inl msg \<Rightarrow> Inl msg
      | Inr rankings \<Rightarrow> Inr (map provider (outer_loop 0 rankings)))"

text \<open>
  What the first loop of \<open>GetProviderRanking\<close> appends for a key whose entry is not nil;
  the proofs about the ranking name it.
\<close>

definition usage_of :: "(LLMProvider \<rightharpoonup> ProviderStats option) \<Rightarrow> LLMProvider \<Rightarrow> providerUsage" where
  "usage_of m k = \<lparr>provider = k, uses = (case m k of Some (Some st) \<Rightarrow> TotalUses st | _ \<Rightarrow> 0)\<rparr>"

section \<open>The invariant of the ledger\<close>

text \<open>
  The invariant as the spec words it: successful plus failed is the total, for the
  ledger and for every provider that has an entry. The sums are those of Go's \<open>int\<close>.
\<close>

definition ledger_invariant :: "UsageStats \<Rightarrow> bool" where
  "ledger_invariant s \<longleftrightarrow>
     SuccessfulGenerations s + FailedGenerations s = TotalGenerations s \<and>
     (\<forall>m k p. ProviderStats s = Some m \<longrightarrow> m k = Some (Some p) \<longrightarrow>
        SuccessfulUses p + FailedUses p = TotalUses p)"

section \<open>Concrete inputs\<close>

text \<open>The inputs at which the theorems below are instantiated.\<close>

definition no_faults :: os_faults where
  "no_faults = \<lparr>ReadFile_fault = None, MkdirAll_fault = None, WriteFile_fault = None\<rparr>"

definition sample_lib :: lib where
  "sample_lib =
     \<lparr>GetConfigPath = Inr ''/home/u/.config/commit-msg/config.json'',
      filepath_Dir = (\<lambda>path. ''/home/u/.config/commit-msg''),
      filepath_Join = (\<lambda>dir name. dir @ ''/'' @ name),
      json_MarshalIndent = (\<lambda>s. Inr ''{}''),
      json_Unmarshal = (\<lambda>data s. if data = ''{}'' then (None, s)
                                  else (Some (SyntaxError ''invalid character''), s))\<rparr>"

definition sample_event :: "LLMProvider \<Rightarrow> bool \<Rightarrow> f64 \<Rightarrow> bool \<Rightarrow> bool \<Rightarrow> GenerationEvent" where
  "sample_event p ok ms checked hit =
     \<lparr>Provider = p, Success = ok, GenerationTime = ms, TokensUsed = 0, Cost = Fin False 0,
      CacheChecked = checked, CacheHit = hit, Timestamp = [], ErrorMessage = []\<rparr>"

definition fresh_manager :: StatsManager where
  "fresh_manager = \<lparr>stats = fresh_UsageStats, filePath = ''/home/u/.config/commit-msg/usage_stats.json''\<rparr>"

section \<open>Facts about the float64 operations\<close>

lemma pow2_powi: "pow2 e = 2 powi e"
  by (simp add: pow2_def power_int_def inverse_eq_divide power_one_over)

lemma pow2_pos: "0 < pow2 e"
  by (simp add: pow2_powi)

lemma pow2_add: "pow2 (a + b) = pow2 a * pow2 b"
  by (simp add: pow2_powi power_int_add)

lemma pow2_diff: "pow2 (a - b) = pow2 a / pow2 b"
  by (simp add: pow2_powi power_int_diff)

lemma pow2_mono: "a \<le> b \<Longrightarrow> pow2 a \<le> pow2 b"
  by (simp add: pow2_powi power_int_increasing)

lemma pow2_strict_mono: "a < b \<Longrightarrow> pow2 a < pow2 b"
  by (simp add: pow2_powi power_int_strict_increasing)

lemma pow2_less_iff: "pow2 a < pow2 b \<longleftrightarrow> a < b"
  using pow2_mono [of b a] pow2_strict_mono [of a b] by (cases "a < b") auto

lemma pow2_nat: "0 \<le> e \<Longrightarrow> pow2 e = 2 ^ nat e"
  by (simp add: pow2_def)

lemma ilog2_bounds:
  assumes "0 < x"
  shows "pow2 (ilog2 x) \<le> x" and "x < pow2 (ilog2 x + 1)"
proof -
  obtain p q where pq: "quotient_of x = (p, q)" by (cases "quotient_of x")
  then have q: "0 < q" and x: "x = of_int p / of_int q"
    by (auto simp: quotient_of_denom_pos quotient_of_div)
  with assms have p: "0 < p"
    by (simp add: zero_less_divide_iff)
  define d where "d = bitlen p - bitlen q"
  have p1: "1 \<le> bitlen p" and q1: "1 \<le> bitlen q"
    using p q bitlen_eq_zero_iff [of p] bitlen_eq_zero_iff [of q] bitlen_nonneg [of p] bitlen_nonneg [of q]
    by linarith+
  have bnd: "pow2 (bitlen k - 1) \<le> of_int k \<and> of_int k < pow2 (bitlen k)" if "0 < k" for k
  proof -
    have k1: "1 \<le> bitlen k"
      using that bitlen_eq_zero_iff [of k] bitlen_nonneg [of k] by linarith
    from bitlen_bounds [OF that]
    have "(of_int (2 ^ nat (bitlen k - 1)) :: rat) \<le> of_int k" "(of_int k :: rat) < of_int (2 ^ nat (bitlen k))"
      unfolding of_int_le_iff of_int_less_iff by auto
    then show ?thesis using k1 by (simp add: pow2_nat)
  qed
  have qpos: "(0::rat) < of_int q" using q by simp
  have ppos: "(0::rat) < of_int p" using p by simp
  have "x < pow2 (bitlen p) / pow2 (bitlen q - 1)"
    unfolding x using bnd [OF p] bnd [OF q] ppos pow2_pos [of "bitlen q - 1"]
    by (intro frac_less) auto
  also have "\<dots> = pow2 (d + 1)"
    unfolding d_def pow2_diff [symmetric] by (simp add: algebra_simps)
  finally have up: "x < pow2 (d + 1)" .
  have "pow2 (bitlen p - 1) / pow2 (bitlen q) \<le> x"
    unfolding x using bnd [OF p] bnd [OF q] qpos ppos
    by (intro frac_le) auto
  moreover have "pow2 (bitlen p - 1) / pow2 (bitlen q) = pow2 (d - 1)"
    unfolding d_def pow2_diff [symmetric] by (simp add: algebra_simps)
  ultimately have lo: "pow2 (d - 1) \<le> x" by simp
  have il: "ilog2 x = (if pow2 d \<le> x then d else d - 1)"
    by (simp add: ilog2_def pq d_def Let_def)
  show "pow2 (ilog2 x) \<le> x"
    using lo by (simp add: il)
  show "x < pow2 (ilog2 x + 1)"
    using up by (simp add: il)
qed

lemma round_half_even_of_int: "round_half_even (of_int k) = k"
  by (simp add: round_half_even_def)

lemma round_half_even_upper: "of_int (round_half_even m) \<le> m + 1 / 2"
  unfolding round_half_even_def Let_def by (auto simp: not_less) linarith+

lemma round_half_even_ge1: "1 \<le> m \<Longrightarrow> 1 \<le> round_half_even m"
proof -
  assume "1 \<le> m"
  then have "1 \<le> \<lfloor>m\<rfloor>" by (simp add: le_floor_iff)
  then show ?thesis by (simp add: round_half_even_def Let_def)
qed

lemma f64_round_exact:
  assumes k: "0 < k" "k < 2 ^ 53" and t: "- 1074 \<le> t"
    and ov: "of_int k * pow2 t < pow2 1024"
  shows "f64_round sg (of_int k * pow2 t) = Fin sg (of_int k * pow2 t)"
proof -
  define x where "x = of_int k * pow2 t"
  have xpos: "0 < x" using k pow2_pos [of t] by (simp add: x_def)
  have "(of_int k :: rat) < of_int (2 ^ 53)" using k unfolding of_int_less_iff by simp
  then have "x < pow2 53 * pow2 t"
    using pow2_pos [of t] by (simp add: x_def pow2_def)
  then have "pow2 (ilog2 x) < pow2 (53 + t)"
    using ilog2_bounds(1) [OF xpos] by (simp add: pow2_add)
  then have il: "ilog2 x < 53 + t" by (simp add: pow2_less_iff)
  define e where "e = max (ilog2 x) (- 1022)"
  define j where "j = t - (e - 52)"
  have j: "0 \<le> j" using il t by (simp add: j_def e_def)
  have "x / pow2 (e - 52) = of_int k * pow2 j"
    by (simp add: x_def j_def pow2_diff)
  also have "\<dots> = of_int (k * 2 ^ nat j)"
    using j by (simp add: pow2_nat)
  finally have q: "x / pow2 (e - 52) = of_int (k * 2 ^ nat j)" .
  have "of_int (round_half_even (x / pow2 (e - 52))) * pow2 (e - 52) = x / pow2 (e - 52) * pow2 (e - 52)"
    unfolding q round_half_even_of_int ..
  also have "\<dots> = x" using pow2_pos [of "e - 52"] by simp
  finally have r: "of_int (round_half_even (x / pow2 (e - 52))) * pow2 (e - 52) = x" .
  have "f64_round sg x = Fin sg x"
    using xpos ov r by (simp add: f64_round_def Let_def e_def [symmetric] x_def [symmetric])
  then show ?thesis by (simp add: x_def)
qed

lemma f64_round_int:
  assumes "0 \<le> k" "k < 2 ^ 53"
  shows "f64_round sg (of_int k) = Fin sg (of_int k)"
proof (cases "k = 0")
  case True
  then show ?thesis by (simp add: f64_round_def)
next
  case False
  with assms have k: "0 < k" by simp
  have "(of_int k :: rat) < of_int (2 ^ 53)" using assms unfolding of_int_less_iff by simp
  then have "of_int k * pow2 0 < pow2 1024" by (simp add: pow2_def)
  from f64_round_exact [OF k assms(2) _ this, of sg] show ?thesis by (simp add: pow2_def)
qed

lemma f64_of_int_small: "\<bar>n\<bar> < 2 ^ 53 \<Longrightarrow> f64_of_int n = Fin (n < 0) (of_int \<bar>n\<bar>)"
  unfolding f64_of_int_def by (rule f64_round_int) auto

lemma f64_round_finite:
  assumes "1 \<le> x" "x \<le> pow2 1023"
  shows "\<exists>m. f64_round sg x = Fin sg m \<and> 0 < m"
proof -
  have xpos: "0 < x" using assms by simp
  have "pow2 0 \<le> x" using assms by (simp add: pow2_def)
  also have "x < pow2 (ilog2 x + 1)" by (rule ilog2_bounds(2) [OF xpos])
  finally have e0: "0 \<le> ilog2 x" by (simp add: pow2_less_iff)
  then have e: "max (ilog2 x) (- 1022) = ilog2 x" by simp
  define q where "q = pow2 (ilog2 x - 52)"
  have qpos: "0 < q" by (simp add: q_def pow2_pos)
  have "q \<le> pow2 (ilog2 x)" unfolding q_def by (rule pow2_mono) simp
  also have "\<dots> \<le> x" by (rule ilog2_bounds(1) [OF xpos])
  finally have qx: "q \<le> x" .
  define r where "r = of_int (round_half_even (x / q)) * q"
  have "1 \<le> x / q" using qx qpos by (simp add: le_divide_eq)
  then have "1 \<le> round_half_even (x / q)" by (rule round_half_even_ge1)
  then have "(1::rat) \<le> of_int (round_half_even (x / q))" by simp
  then have rpos: "0 < r" using qpos by (simp add: r_def)
  have "r \<le> (x / q + 1 / 2) * q"
    unfolding r_def using round_half_even_upper [of "x / q"] qpos by (simp add: mult_right_mono)
  also have "\<dots> = x + q / 2" using qpos by (simp add: algebra_simps)
  also have "\<dots> < 2 * x" using qx xpos by simp
  also have "\<dots> \<le> 2 * pow2 1023" using assms by simp
  also have "\<dots> = pow2 1024" by (simp add: pow2_def)
  finally have "r < pow2 1024" .
  then have "f64_round sg x = Fin sg r"
    using xpos by (simp add: f64_round_def Let_def e q_def [symmetric] r_def [symmetric])
  with rpos show ?thesis by blast
qed

lemma f64_of_int_sint:
  fixes w :: go_int
  shows "\<exists>m. f64_of_int (sint w) = Fin (sint w < 0) m \<and> (m = 0 \<longleftrightarrow> w = 0)"
proof (cases "w = 0")
  case True
  then show ?thesis by (simp add: f64_of_int_def f64_round_def)
next
  case False
  then have nz: "sint w \<noteq> 0" by (simp add: signed_eq_0_iff)
  have "- (2 ^ 63) \<le> sint w" "sint w < 2 ^ 63"
    using sint_ge [of w] sint_lt [of w] by simp_all
  then have "\<bar>sint w\<bar> \<le> 2 ^ 63" by simp
  then have "(of_int \<bar>sint w\<bar> :: rat) \<le> of_int (2 ^ 63)" unfolding of_int_le_iff .
  also have "\<dots> \<le> pow2 1023" by (simp add: pow2_def)
  finally have up: "(of_int \<bar>sint w\<bar> :: rat) \<le> pow2 1023" .
  have "1 \<le> \<bar>sint w\<bar>" using nz by simp
  then have "(of_int 1 :: rat) \<le> of_int \<bar>sint w\<bar>" unfolding of_int_le_iff .
  then have lo: "(1 :: rat) \<le> of_int \<bar>sint w\<bar>" by simp
  from f64_round_finite [OF lo up, of "sint w < 0"] False
  show ?thesis by (auto simp: f64_of_int_def)
qed

text \<open>
  Two checks of the rounding against the format: \<open>1.0 / 3.0\<close> is the float64 with the
  bits \<open>0x3FD5555555555555\<close>, that is \<open>6004799503160661 / 2^54\<close>, and \<open>2^53 + 1\<close>, half
  way between two float64 values, converts to the one with the even significand.
\<close>

lemma ilog2_third: "ilog2 (1 / 3) = - 2"
proof -
  have "pow2 (ilog2 (1 / 3)) \<le> 1 / 3" "1 / 3 < pow2 (ilog2 (1 / 3) + 1)"
    using ilog2_bounds [of "1 / 3"] by simp_all
  moreover have "pow2 (- 2) \<le> 1 / 3" "(1 / 3 :: rat) < pow2 (- 1)" by (simp_all add: pow2_def)
  ultimately have "pow2 (ilog2 (1 / 3)) < pow2 (- 1)" "pow2 (- 2) < pow2 (ilog2 (1 / 3) + 1)"
    by linarith+
  then have "ilog2 (1 / 3) < - 1" "- 2 < ilog2 (1 / 3) + 1" by (simp_all add: pow2_less_iff)
  then show ?thesis by simp
qed

lemma third: "f64_div (Fin False 1) (Fin False 3) = Fin False (6004799503160661 / 18014398509481984)"
proof -
  have q: "pow2 (- 54) = 1 / 18014398509481984" "pow2 1024 = 2 ^ 1024" by (simp_all add: pow2_def)
  have f: "\<lfloor>(18014398509481984 / 3 :: rat)\<rfloor> = 6004799503160661"
    by (simp add: floor_eq_iff)
  have r: "round_half_even (18014398509481984 / 3) = 6004799503160661"
    by (simp add: round_half_even_def Let_def f)
  show ?thesis
    by (simp add: f64_round_def Let_def ilog2_third q r)
qed


lemma ilog2_tie: "ilog2 9007199254740993 = 53"
proof -
  have "pow2 (ilog2 9007199254740993) \<le> 9007199254740993"
    "9007199254740993 < pow2 (ilog2 9007199254740993 + 1)"
    using ilog2_bounds [of 9007199254740993] by simp_all
  moreover have "pow2 53 \<le> 9007199254740993" "(9007199254740993 :: rat) < pow2 54"
    by (simp_all add: pow2_def)
  ultimately have "pow2 (ilog2 9007199254740993) < pow2 54"
    "pow2 53 < pow2 (ilog2 9007199254740993 + 1)"
    by linarith+
  then have "ilog2 9007199254740993 < 54" "53 < ilog2 9007199254740993 + 1"
    by (simp_all add: pow2_less_iff)
  then show ?thesis by simp
qed

lemma tie_to_even: "f64_of_int (2 ^ 53 + 1) = Fin False (2 ^ 53)"
proof -
  have q: "pow2 1 = 2" "pow2 1024 = 2 ^ 1024" by (simp_all add: pow2_def)
  have f: "\<lfloor>(9007199254740993 / 2 :: rat)\<rfloor> = 4503599627370496"
    by (simp add: floor_eq_iff)
  have r: "round_half_even (9007199254740993 / 2) = 4503599627370496"
    by (simp add: round_half_even_def Let_def f)
  show ?thesis
    by (simp add: f64_of_int_def f64_round_def Let_def ilog2_tie q r)
qed

section \<open>Facts about RecordGeneration\<close>

lemma update_global_counters:
  "TotalGenerations (update_global now e s) = TotalGenerations s + 1"
  "SuccessfulGenerations (update_global now e s) = SuccessfulGenerations s + (if Success e then 1 else 0)"
  "FailedGenerations (update_global now e s) = FailedGenerations s + (if Success e then 0 else 1)"
  "ProviderStats (update_global now e s) = ProviderStats s"
  by (simp_all add: update_global_def Let_def)

lemma update_global_times:
  "FirstUse (update_global now e s) = (if FirstUse s = [] then now else FirstUse s)"
  "LastUse (update_global now e s) = now"
  by (simp_all add: update_global_def Let_def)

lemma update_global_cache:
  "CacheHits (update_global now e s) = CacheHits s + (if CacheChecked e \<and> CacheHit e then 1 else 0)"
  "CacheMisses (update_global now e s) = CacheMisses s + (if CacheChecked e \<and> \<not> CacheHit e then 1 else 0)"
  by (simp_all add: update_global_def Let_def)

lemma update_global_average:
  "AverageGenerationTime (update_global now e s) =
     f64_div (f64_add (f64_mul (AverageGenerationTime s) (f64_of_int (sint (TotalGenerations s))))
                      (GenerationTime e))
             (f64_of_int (sint (TotalGenerations s + 1)))"
  by (simp add: update_global_def Let_def)

lemma update_provider_counters:
  "TotalUses (update_provider now e p) = TotalUses p + 1"
  "SuccessfulUses (update_provider now e p) = SuccessfulUses p + (if Success e then 1 else 0)"
  "FailedUses (update_provider now e p) = FailedUses p + (if Success e then 0 else 1)"
  by (simp_all add: update_provider_def Let_def)

lemma update_provider_times:
  "FirstUsed (update_provider now e p) = FirstUsed p"
  "LastUsed (update_provider now e p) = now"
  "Name (update_provider now e p) = Name p"
  by (simp_all add: update_provider_def Let_def)

lemma update_provider_average:
  "ProviderAverageGenerationTime (update_provider now e p) =
     f64_div (f64_add (f64_mul (ProviderAverageGenerationTime p) (f64_of_int (sint (TotalUses p))))
                      (GenerationTime e))
             (f64_of_int (sint (TotalUses p + 1)))"
  by (simp add: update_provider_def Let_def)

lemma RecordGeneration_nil:
  "ProviderStats (stats sm) = None \<Longrightarrow>
   RecordGeneration l flt now e (sm, fs) =
     (Panics ''assignment to entry in nil map'', sm\<lparr>stats := update_global now e (stats sm)\<rparr>, fs)"
  by (simp add: RecordGeneration_def Let_def update_global_counters)

lemma RecordGeneration_Some:
  fixes e :: GenerationEvent and now :: string and m :: "LLMProvider \<rightharpoonup> ProviderStats option"
    and sm :: StatsManager
  assumes "ProviderStats (stats sm) = Some m"
  defines "p \<equiv> (case m (Provider e) of Some (Some p) \<Rightarrow> p
                  | _ \<Rightarrow> zero_ProviderStats\<lparr>Name := Provider e, FirstUsed := now\<rparr>)"
  defines "sm' \<equiv> sm\<lparr>stats := (update_global now e (stats sm))
                      \<lparr>ProviderStats := Some (m(Provider e \<mapsto> Some (update_provider now e p)))\<rparr>\<rparr>"
  shows "RecordGeneration l flt now e (sm, fs) =
           (Returns (fst (save l flt fs sm')), sm', snd (save l flt fs sm'))"
  using assms(1) unfolding p_def sm'_def
  by (simp add: RecordGeneration_def Let_def update_global_counters split: prod.splits)

lemma sint_of_nat_small:
  "n < 2 ^ 63 \<Longrightarrow> sint (of_nat n :: go_int) = int n"
proof -
  assume "n < 2 ^ 63"
  then have "int n < 2 ^ 63" by (metis of_nat_less_iff of_nat_numeral of_nat_power)
  then show ?thesis
    by (simp add: signed_of_nat signed_take_bit_int_eq_self)
qed

lemma RecordGenerations_counts:
  assumes "ProviderStats (stats sm) \<noteq> None"
  shows "case RecordGenerations l calls (sm, fs) of (outs, sm', fs') \<Rightarrow>
     length outs = length calls \<and> (\<forall>out\<in>set outs. \<exists>err. out = Returns err) \<and>
     ProviderStats (stats sm') \<noteq> None \<and>
     TotalGenerations (stats sm') = TotalGenerations (stats sm) + of_nat (length calls) \<and>
     SuccessfulGenerations (stats sm') =
       SuccessfulGenerations (stats sm) + of_nat (length (filter (\<lambda>(flt, now, e). Success e) calls)) \<and>
     FailedGenerations (stats sm') =
       FailedGenerations (stats sm) + of_nat (length (filter (\<lambda>(flt, now, e). \<not> Success e) calls))"
  using assms
proof (induction calls arbitrary: sm fs)
  case Nil
  then show ?case by simp
next
  case (Cons c calls)
  obtain flt now e where c: "c = (flt, now, e)" by (cases c)
  from Cons.prems obtain m where m: "ProviderStats (stats sm) = Some m" by auto
  obtain sm1 fs1 err where step: "RecordGeneration l flt now e (sm, fs) = (Returns err, sm1, fs1)"
    and s1: "stats sm1 = (update_global now e (stats sm))
               \<lparr>ProviderStats := Some (m(Provider e \<mapsto> Some (update_provider now e
                   (case m (Provider e) of Some (Some p) \<Rightarrow> p
                    | _ \<Rightarrow> zero_ProviderStats\<lparr>Name := Provider e, FirstUsed := now\<rparr>))))\<rparr>"
    using RecordGeneration_Some [OF m, of l flt now e fs] by simp
  have nn: "ProviderStats (stats sm1) \<noteq> None" by (simp add: s1)
  obtain outs sm2 fs2 where rest: "RecordGenerations l calls (sm1, fs1) = (outs, sm2, fs2)"
    by (cases "RecordGenerations l calls (sm1, fs1)")
  from Cons.IH [OF nn, of fs1] rest
  show ?case
    by (simp add: c step s1 update_global_counters)
qed

lemma RecordGeneration_stats:
  "stats (fst (snd (RecordGeneration l flt now e (sm, fs)))) =
     (case ProviderStats (stats sm) of
        None \<Rightarrow> update_global now e (stats sm)
      | Some m \<Rightarrow> (update_global now e (stats sm))
          \<lparr>ProviderStats := Some (m(Provider e \<mapsto> Some (update_provider now e
              (case m (Provider e) of Some (Some p) \<Rightarrow> p
               | _ \<Rightarrow> zero_ProviderStats\<lparr>Name := Provider e, FirstUsed := now\<rparr>))))\<rparr>)"
proof (cases "ProviderStats (stats sm)")
  case None
  then show ?thesis by (simp add: RecordGeneration_nil)
next
  case (Some m)
  then show ?thesis by (simp add: RecordGeneration_Some)
qed

lemma update_global_invariant:
  "SuccessfulGenerations s + FailedGenerations s = TotalGenerations s \<Longrightarrow>
   SuccessfulGenerations (update_global now e s) + FailedGenerations (update_global now e s)
     = TotalGenerations (update_global now e s)"
  by (simp add: update_global_counters)

lemma update_provider_invariant:
  "SuccessfulUses p + FailedUses p = TotalUses p \<Longrightarrow>
   SuccessfulUses (update_provider now e p) + FailedUses (update_provider now e p)
     = TotalUses (update_provider now e p)"
  by (simp add: update_provider_counters)

lemma ledger_invariant_step:
  assumes "ledger_invariant (stats sm)"
  shows "ledger_invariant (stats (fst (snd (RecordGeneration l flt now e (sm, fs)))))"
proof (cases "ProviderStats (stats sm)")
  case None
  with assms show ?thesis
    by (simp add: RecordGeneration_stats ledger_invariant_def update_global_counters)
next
  case (Some m)
  have old: "SuccessfulUses p + FailedUses p = TotalUses p" if "m k = Some (Some p)" for k p
    using assms Some that unfolding ledger_invariant_def by blast
  have glob: "SuccessfulGenerations (stats sm) + FailedGenerations (stats sm) = TotalGenerations (stats sm)"
    using assms unfolding ledger_invariant_def by blast
  define p0 where "p0 = (case m (Provider e) of Some (Some p) \<Rightarrow> p
             | _ \<Rightarrow> zero_ProviderStats\<lparr>Name := Provider e, FirstUsed := now\<rparr>)"
  have "SuccessfulUses p0 + FailedUses p0 = TotalUses p0"
  proof (cases "m (Provider e)")
    case None
    then show ?thesis by (simp add: p0_def zero_ProviderStats_def)
  next
    case outer: (Some entry)
    show ?thesis
    proof (cases entry)
      case None
      with outer show ?thesis by (simp add: p0_def zero_ProviderStats_def)
    next
      case (Some p)
      with outer old [of "Provider e" p] show ?thesis by (simp add: p0_def)
    qed
  qed
  then have new: "SuccessfulUses (update_provider now e p0) + FailedUses (update_provider now e p0)
                    = TotalUses (update_provider now e p0)"
    by (rule update_provider_invariant)
  have st: "stats (fst (snd (RecordGeneration l flt now e (sm, fs)))) =
      (update_global now e (stats sm))
          \<lparr>ProviderStats := Some (m(Provider e \<mapsto> Some (update_provider now e p0)))\<rparr>"
    by (simp add: RecordGeneration_stats Some p0_def)
  show ?thesis
    unfolding st ledger_invariant_def
  proof (intro conjI allI impI)
    show "SuccessfulGenerations ((update_global now e (stats sm))
            \<lparr>ProviderStats := Some (m(Provider e \<mapsto> Some (update_provider now e p0)))\<rparr>) +
          FailedGenerations ((update_global now e (stats sm))
            \<lparr>ProviderStats := Some (m(Provider e \<mapsto> Some (update_provider now e p0)))\<rparr>) =
          TotalGenerations ((update_global now e (stats sm))
            \<lparr>ProviderStats := Some (m(Provider e \<mapsto> Some (update_provider now e p0)))\<rparr>)"
      using update_global_invariant [OF glob, of now e] by simp
  next
    fix m' k p
    assume "ProviderStats ((update_global now e (stats sm))
            \<lparr>ProviderStats := Some (m(Provider e \<mapsto> Some (update_provider now e p0)))\<rparr>) = Some m'"
      and k: "m' k = Some (Some p)"
    then have m': "m' = m(Provider e \<mapsto> Some (update_provider now e p0))" by simp
    show "SuccessfulUses p + FailedUses p = TotalUses p"
    proof (cases "k = Provider e")
      case True
      with k m' have "p = update_provider now e p0" by simp
      with new show ?thesis by simp
    next
      case False
      with k m' have "m k = Some (Some p)" by simp
      then show ?thesis by (rule old)
    qed
  qed
qed

lemma ledger_invariant_run:
  "ledger_invariant (stats sm) \<Longrightarrow>
   ledger_invariant (stats (fst (snd (RecordGenerations l calls (sm, fs)))))"
proof (induction calls arbitrary: sm fs)
  case Nil
  then show ?case by simp
next
  case (Cons c calls)
  obtain flt now e where c: "c = (flt, now, e)" by (cases c)
  obtain out sm1 fs1 where step: "RecordGeneration l flt now e (sm, fs) = (out, sm1, fs1)"
    by (cases "RecordGeneration l flt now e (sm, fs)")
  from ledger_invariant_step [OF Cons.prems, of l flt now e fs] step
  have inv1: "ledger_invariant (stats sm1)" by simp
  show ?case
  proof (cases out)
    case (Returns err)
    with Cons.IH [OF inv1, of fs1] show ?thesis
      by (simp add: c step split_beta)
  next
    case (Panics msg)
    with inv1 show ?thesis by (simp add: c step)
  qed
qed

lemma FirstUse_run:
  "FirstUse (stats sm) \<noteq> [] \<Longrightarrow>
   FirstUse (stats (fst (snd (RecordGenerations l calls (sm, fs))))) = FirstUse (stats sm)"
proof (induction calls arbitrary: sm fs)
  case Nil
  then show ?case by simp
next
  case (Cons c calls)
  obtain flt now e where c: "c = (flt, now, e)" by (cases c)
  obtain out sm1 fs1 where step: "RecordGeneration l flt now e (sm, fs) = (out, sm1, fs1)"
    by (cases "RecordGeneration l flt now e (sm, fs)")
  from RecordGeneration_stats [of l flt now e sm fs] step
  have "FirstUse (stats sm1) = FirstUse (update_global now e (stats sm))"
    by (simp split: option.splits)
  with Cons.prems have f1: "FirstUse (stats sm1) = FirstUse (stats sm)"
    by (simp add: update_global_times)
  show ?case
  proof (cases out)
    case (Returns err)
    with Cons.IH [of sm1 fs1] f1 Cons.prems show ?thesis
      by (simp add: c step split_beta)
  next
    case (Panics msg)
    with f1 show ?thesis by (simp add: c step)
  qed
qed

lemma FirstUsed_step:
  assumes "ProviderStats (stats sm) = Some m" and "m k = Some (Some p)"
  shows "\<exists>m' p'. ProviderStats (stats (fst (snd (RecordGeneration l flt now e (sm, fs))))) = Some m' \<and>
           m' k = Some (Some p') \<and> FirstUsed p' = FirstUsed p"
proof (cases "k = Provider e")
  case True
  with assms show ?thesis
    by (simp add: RecordGeneration_stats update_provider_times)
next
  case False
  with assms show ?thesis
    by (simp add: RecordGeneration_stats)
qed

lemma FirstUsed_run:
  assumes "ProviderStats (stats sm) = Some m" and "m k = Some (Some p)"
  shows "\<exists>m' p'. ProviderStats (stats (fst (snd (RecordGenerations l calls (sm, fs))))) = Some m' \<and>
           m' k = Some (Some p') \<and> FirstUsed p' = FirstUsed p"
  using assms
proof (induction calls arbitrary: sm fs m p)
  case Nil
  then show ?case by simp
next
  case (Cons c calls)
  obtain flt now e where c: "c = (flt, now, e)" by (cases c)
  obtain err sm1 fs1 where step: "RecordGeneration l flt now e (sm, fs) = (Returns err, sm1, fs1)"
    using RecordGeneration_Some [OF Cons.prems(1), of l flt now e fs] by simp
  from FirstUsed_step [OF Cons.prems, of l flt now e fs] step
  obtain m1 p1 where 1: "ProviderStats (stats sm1) = Some m1" "m1 k = Some (Some p1)"
      "FirstUsed p1 = FirstUsed p" by auto
  from Cons.IH [OF 1(1,2), of fs1] 1(3) show ?case
    by (simp add: c step split_beta)
qed

lemma f64_round_numeral:
  "numeral k < (2 ^ 53 :: int) \<Longrightarrow> f64_round sg (numeral k) = Fin sg (numeral k)"
  using f64_round_int [of "numeral k" sg] by simp

lemma f64_round_quarters: "f64_round sg (3 / 4) = Fin sg (3 / 4)"
proof -
  have "of_int 3 * pow2 (- 2) < pow2 1024" by (simp add: pow2_def)
  from f64_round_exact [of 3 "- 2" sg, OF _ _ _ this] show ?thesis
    by (simp add: pow2_def)
qed

lemma f64_round_not_NaN: "f64_round sg x \<noteq> NaN"
  by (simp add: f64_round_def Let_def)

lemma f64_round_cases: "(\<exists>r. f64_round sg x = Fin sg r) \<or> f64_round sg x = Inf sg"
  by (simp add: f64_round_def Let_def)

lemma f64_of_int_100: "f64_of_int 100 = Fin False 100"
  by (simp add: f64_of_int_small)

lemma percentage_not_NaN:
  fixes a d :: go_int
  assumes "d \<noteq> 0"
  shows "f64_mul (f64_div (f64_of_int (sint a)) (f64_of_int (sint d))) (f64_of_int 100) \<noteq> NaN"
proof -
  obtain ma where a: "f64_of_int (sint a) = Fin (sint a < 0) ma"
    using f64_of_int_sint [of a] by blast
  obtain md where d: "f64_of_int (sint d) = Fin (sint d < 0) md" "md \<noteq> 0"
    using f64_of_int_sint [of d] assms by blast
  let ?sg = "(sint a < 0) \<noteq> (sint d < 0)"
  have q: "f64_div (f64_of_int (sint a)) (f64_of_int (sint d)) = f64_round ?sg (ma / md)"
    by (simp add: a d)
  from f64_round_cases [of ?sg "ma / md"] show ?thesis
  proof
    assume "\<exists>r. f64_round ?sg (ma / md) = Fin ?sg r"
    then show ?thesis by (auto simp: q f64_of_int_100 f64_round_not_NaN)
  next
    assume "f64_round ?sg (ma / md) = Inf ?sg"
    then show ?thesis by (simp add: q f64_of_int_100)
  qed
qed

lemma divisor_not_zero:
  fixes d :: go_int
  shows "d \<noteq> 0 \<Longrightarrow> \<not> is_zero (f64_of_int (sint d))"
  using f64_of_int_sint [of d] by auto

lemma mean_100:
  "f64_div (f64_add (f64_mul (Fin False 0) (f64_of_int 0)) (Fin False 100))
           (f64_of_int 1) = Fin False 100"
proof -
  have 1: "f64_of_int 0 = Fin False 0" by (simp add: f64_of_int_small)
  have 2: "f64_mul (Fin False 0) (Fin False 0) = Fin False 0" by (simp add: f64_round_def)
  have 3: "f64_add (Fin False 0) (Fin False 100) = Fin False 100"
    by (simp add: with_sign_def Let_def f64_round_numeral)
  have 4: "f64_of_int 1 = Fin False 1" by (simp add: f64_of_int_small)
  have 5: "f64_div (Fin False 100) (Fin False 1) = Fin False 100" by (simp add: f64_round_numeral)
  show ?thesis by (simp only: 1 2 3 4 5)
qed

lemma mean_150:
  "f64_div (f64_add (f64_mul (Fin False 100) (f64_of_int 1)) (Fin False 200))
           (f64_of_int 2) = Fin False 150"
proof -
  have 1: "f64_of_int 1 = Fin False 1" by (simp add: f64_of_int_small)
  have 2: "f64_mul (Fin False 100) (Fin False 1) = Fin False 100" by (simp add: f64_round_numeral)
  have 3: "f64_add (Fin False 100) (Fin False 200) = Fin False 300"
    by (simp add: with_sign_def Let_def f64_round_numeral)
  have 4: "f64_of_int 2 = Fin False 2" by (simp add: f64_of_int_small)
  have 5: "f64_div (Fin False 300) (Fin False 2) = Fin False 150" by (simp add: f64_round_numeral)
  show ?thesis by (simp only: 1 2 3 4 5)
qed

lemma mean_200:
  "f64_div (f64_add (f64_mul (Fin False 150) (f64_of_int 2)) (Fin False 300))
           (f64_of_int 3) = Fin False 200"
proof -
  have 1: "f64_of_int 2 = Fin False 2" by (simp add: f64_of_int_small)
  have 2: "f64_mul (Fin False 150) (Fin False 2) = Fin False 300" by (simp add: f64_round_numeral)
  have 3: "f64_add (Fin False 300) (Fin False 300) = Fin False 600"
    by (simp add: with_sign_def Let_def f64_round_numeral)
  have 4: "f64_of_int 3 = Fin False 3" by (simp add: f64_of_int_small)
  have 5: "f64_div (Fin False 600) (Fin False 3) = Fin False 200" by (simp add: f64_round_numeral)
  show ?thesis by (simp only: 1 2 3 4 5)
qed

lemma rate_75:
  "f64_mul (f64_div (f64_of_int 3) (f64_of_int 4))
           (f64_of_int 100) = Fin False 75"
proof -
  have 1: "f64_of_int 3 = Fin False 3" by (simp add: f64_of_int_small)
  have 2: "f64_of_int 4 = Fin False 4" by (simp add: f64_of_int_small)
  have 3: "f64_div (Fin False 3) (Fin False 4) = Fin False (3 / 4)" by (simp add: f64_round_quarters)
  have 4: "f64_mul (Fin False (3 / 4)) (Fin False 100) = Fin False 75" by (simp add: f64_round_numeral)
  show ?thesis by (simp only: 1 2 3 4 f64_of_int_100)
qed

lemma RecordGeneration_average:
  "AverageGenerationTime (stats (fst (snd (RecordGeneration l flt now e (sm, fs))))) =
     f64_div (f64_add (f64_mul (AverageGenerationTime (stats sm))
                               (f64_of_int (sint (TotalGenerations (stats sm)))))
                      (GenerationTime e))
             (f64_of_int (sint (TotalGenerations (stats sm) + 1)))"
  "TotalGenerations (stats (fst (snd (RecordGeneration l flt now e (sm, fs))))) =
     TotalGenerations (stats sm) + 1"
  by (simp_all add: RecordGeneration_stats update_global_average update_global_counters
        split: option.splits)

lemma RecordGeneration_entry:
  assumes "ProviderStats (stats sm) = Some m"
  shows "\<exists>m'. ProviderStats (stats (fst (snd (RecordGeneration l flt now e (sm, fs))))) = Some m' \<and>
           m' (Provider e) = Some (Some (update_provider now e
              (case m (Provider e) of Some (Some p) \<Rightarrow> p
               | _ \<Rightarrow> zero_ProviderStats\<lparr>Name := Provider e, FirstUsed := now\<rparr>)))"
  using assms by (simp add: RecordGeneration_stats)



lemma update_provider_mean:
  fixes old :: ProviderStats and now :: string and e :: GenerationEvent
  defines "p' \<equiv> update_provider now e old"
  shows "TotalUses p' = TotalUses old + 1"
    and "ProviderAverageGenerationTime p' =
           f64_div (f64_add (f64_mul (ProviderAverageGenerationTime old)
                                     (f64_of_int (sint (TotalUses p' - 1))))
                            (GenerationTime e))
                   (f64_of_int (sint (TotalUses p')))"
  unfolding p'_def by (simp_all add: update_provider_average update_provider_counters)

lemma running_mean_step:
  "case RecordGeneration l flt now e (sm, fs) of (out, sm', fs') \<Rightarrow>
      (let n = TotalGenerations (stats sm')
       in n = TotalGenerations (stats sm) + 1 \<and>
          AverageGenerationTime (stats sm') =
            f64_div (f64_add (f64_mul (AverageGenerationTime (stats sm)) (f64_of_int (sint (n - 1))))
                             (GenerationTime e))
                    (f64_of_int (sint n))) \<and>
      (\<forall>m. ProviderStats (stats sm) = Some m \<longrightarrow>
         (\<exists>m' p'. ProviderStats (stats sm') = Some m' \<and> m' (Provider e) = Some (Some p') \<and>
            (let n = TotalUses p';
                 old = (case m (Provider e) of Some (Some p) \<Rightarrow> p | _ \<Rightarrow> zero_ProviderStats)
             in n = TotalUses old + 1 \<and>
                ProviderAverageGenerationTime p' =
                  f64_div (f64_add (f64_mul (ProviderAverageGenerationTime old)
                                            (f64_of_int (sint (n - 1))))
                                   (GenerationTime e))
                          (f64_of_int (sint n)))))"
proof -
  obtain out sm' fs' where step: "RecordGeneration l flt now e (sm, fs) = (out, sm', fs')"
    by (cases "RecordGeneration l flt now e (sm, fs)")
  have g1: "TotalGenerations (stats sm') = TotalGenerations (stats sm) + 1"
    using RecordGeneration_average(2) [of l flt now e sm fs] step by simp
  have g2: "AverageGenerationTime (stats sm') =
            f64_div (f64_add (f64_mul (AverageGenerationTime (stats sm))
                                      (f64_of_int (sint (TotalGenerations (stats sm') - 1))))
                             (GenerationTime e))
                    (f64_of_int (sint (TotalGenerations (stats sm'))))"
    using RecordGeneration_average(1) [of l flt now e sm fs] step by (simp add: g1)
  have p: "\<exists>m' p'. ProviderStats (stats sm') = Some m' \<and> m' (Provider e) = Some (Some p') \<and>
            (let n = TotalUses p';
                 old = (case m (Provider e) of Some (Some p) \<Rightarrow> p | _ \<Rightarrow> zero_ProviderStats)
             in n = TotalUses old + 1 \<and>
                ProviderAverageGenerationTime p' =
                  f64_div (f64_add (f64_mul (ProviderAverageGenerationTime old)
                                            (f64_of_int (sint (n - 1))))
                                   (GenerationTime e))
                          (f64_of_int (sint n)))"
    if m: "ProviderStats (stats sm) = Some m" for m
  proof -
    define old where "old = (case m (Provider e) of Some (Some p) \<Rightarrow> p
                | _ \<Rightarrow> zero_ProviderStats\<lparr>Name := Provider e, FirstUsed := now\<rparr>)"
    define old0 where "old0 = (case m (Provider e) of Some (Some p) \<Rightarrow> p | _ \<Rightarrow> zero_ProviderStats)"
    have same: "TotalUses old = TotalUses old0"
      "ProviderAverageGenerationTime old = ProviderAverageGenerationTime old0"
      unfolding old_def old0_def by (simp_all split: option.splits)
    from RecordGeneration_entry [OF m, of l flt now e fs] step
    obtain m' where m': "ProviderStats (stats sm') = Some m'"
      "m' (Provider e) = Some (Some (update_provider now e old))"
      unfolding old_def by auto
    show ?thesis
      unfolding Let_def old0_def [symmetric]
      using m' update_provider_mean [of now e old] unfolding same
      by (intro exI conjI)
  qed
  show ?thesis
    unfolding step prod.case
  proof (intro conjI allI impI)
    show "let n = TotalGenerations (stats sm')
       in n = TotalGenerations (stats sm) + 1 \<and>
          AverageGenerationTime (stats sm') =
            f64_div (f64_add (f64_mul (AverageGenerationTime (stats sm)) (f64_of_int (sint (n - 1))))
                             (GenerationTime e))
                    (f64_of_int (sint n))"
      unfolding Let_def using g1 g2 by (intro conjI)
  qed (rule p)
qed

lemma provider_mean_next:
  assumes m: "ProviderStats (stats sm) = Some m" "m (Provider e) = Some (Some p)"
    and avg: "f64_div (f64_add (f64_mul (ProviderAverageGenerationTime p) (f64_of_int (sint (TotalUses p))))
                (GenerationTime e)) (f64_of_int (sint (TotalUses p + 1))) = a"
  shows "\<exists>m' p'. ProviderStats (stats (fst (snd (RecordGeneration l flt now e (sm, fs))))) = Some m' \<and>
           m' (Provider e) = Some (Some p') \<and> TotalUses p' = TotalUses p + 1 \<and>
           ProviderAverageGenerationTime p' = a"
  using RecordGeneration_entry [OF m(1), of l flt now e fs] m(2) avg
  by (auto simp: update_provider_average update_provider_counters)

lemma running_mean_example:
  assumes g: "GenerationTime e1 = Fin False 100" "GenerationTime e2 = Fin False 200"
      "GenerationTime e3 = Fin False 300"
  shows "case RecordGeneration l f1 t1 e1 (\<lparr>stats = fresh_UsageStats, filePath = path\<rparr>, fs) of
     (o1, sm1, fs1) \<Rightarrow>
       AverageGenerationTime (stats sm1) = Fin False 100 \<and>
       (case RecordGeneration l f2 t2 e2 (sm1, fs1) of
          (o2, sm2, fs2) \<Rightarrow>
            AverageGenerationTime (stats sm2) = Fin False 150 \<and>
            (case RecordGeneration l f3 t3 e3 (sm2, fs2) of
               (o3, sm3, fs3) \<Rightarrow>
                 AverageGenerationTime (stats sm3) = Fin False 200 \<and>
                 (Provider e2 = Provider e1 \<and> Provider e3 = Provider e1 \<longrightarrow>
                    (\<exists>m1 p1 m2 p2 m3 p3.
                       ProviderStats (stats sm1) = Some m1 \<and> m1 (Provider e1) = Some (Some p1) \<and>
                       ProviderAverageGenerationTime p1 = Fin False 100 \<and>
                       ProviderStats (stats sm2) = Some m2 \<and> m2 (Provider e1) = Some (Some p2) \<and>
                       ProviderAverageGenerationTime p2 = Fin False 150 \<and>
                       ProviderStats (stats sm3) = Some m3 \<and> m3 (Provider e1) = Some (Some p3) \<and>
                       ProviderAverageGenerationTime p3 = Fin False 200))))"
proof -
  let ?sm0 = "\<lparr>stats = fresh_UsageStats, filePath = path\<rparr>"
  obtain o1 sm1 fs1 where s1: "RecordGeneration l f1 t1 e1 (?sm0, fs) = (o1, sm1, fs1)"
    by (cases "RecordGeneration l f1 t1 e1 (?sm0, fs)")
  obtain o2 sm2 fs2 where s2: "RecordGeneration l f2 t2 e2 (sm1, fs1) = (o2, sm2, fs2)"
    by (cases "RecordGeneration l f2 t2 e2 (sm1, fs1)")
  obtain o3 sm3 fs3 where s3: "RecordGeneration l f3 t3 e3 (sm2, fs2) = (o3, sm3, fs3)"
    by (cases "RecordGeneration l f3 t3 e3 (sm2, fs2)")
  have T1: "TotalGenerations (stats sm1) = 1"
    using RecordGeneration_average(2) [of l f1 t1 e1 ?sm0 fs] s1 by (simp add: fresh_UsageStats_def)
  have A1: "AverageGenerationTime (stats sm1) = Fin False 100"
    using RecordGeneration_average(1) [of l f1 t1 e1 ?sm0 fs] s1
    by (simp add: fresh_UsageStats_def g mean_100)
  have T2: "TotalGenerations (stats sm2) = 2"
    using RecordGeneration_average(2) [of l f2 t2 e2 sm1 fs1] s2 by (simp add: T1)
  have A2: "AverageGenerationTime (stats sm2) = Fin False 150"
    using RecordGeneration_average(1) [of l f2 t2 e2 sm1 fs1] s2
    by (simp add: T1 A1 g mean_150)
  have A3: "AverageGenerationTime (stats sm3) = Fin False 200"
    using RecordGeneration_average(1) [of l f3 t3 e3 sm2 fs2] s3
    by (simp add: T2 A2 g mean_200)
  have P: "\<exists>m1 p1 m2 p2 m3 p3.
             ProviderStats (stats sm1) = Some m1 \<and> m1 (Provider e1) = Some (Some p1) \<and>
             ProviderAverageGenerationTime p1 = Fin False 100 \<and>
             ProviderStats (stats sm2) = Some m2 \<and> m2 (Provider e1) = Some (Some p2) \<and>
             ProviderAverageGenerationTime p2 = Fin False 150 \<and>
             ProviderStats (stats sm3) = Some m3 \<and> m3 (Provider e1) = Some (Some p3) \<and>
             ProviderAverageGenerationTime p3 = Fin False 200"
    if same: "Provider e2 = Provider e1" "Provider e3 = Provider e1"
  proof -
    have m0: "ProviderStats (stats ?sm0) = Some Map.empty" by (simp add: fresh_UsageStats_def)
    from RecordGeneration_entry [OF m0, of l f1 t1 e1 fs] s1
    obtain m1 where m1: "ProviderStats (stats sm1) = Some m1"
      "m1 (Provider e1) = Some (Some (update_provider t1 e1
          (zero_ProviderStats\<lparr>Name := Provider e1, FirstUsed := t1\<rparr>)))"
      by auto
    define p1 where "p1 = update_provider t1 e1 (zero_ProviderStats\<lparr>Name := Provider e1, FirstUsed := t1\<rparr>)"
    have U1: "TotalUses p1 = 1"
      by (simp add: p1_def update_provider_counters zero_ProviderStats_def)
    have B1: "ProviderAverageGenerationTime p1 = Fin False 100"
      by (simp add: p1_def update_provider_average zero_ProviderStats_def g mean_100)
    have "f64_div (f64_add (f64_mul (ProviderAverageGenerationTime p1) (f64_of_int (sint (TotalUses p1))))
                (GenerationTime e2)) (f64_of_int (sint (TotalUses p1 + 1))) = Fin False 150"
      by (simp add: U1 B1 g mean_150)
    from provider_mean_next [OF m1(1) _ this, of l f2 t2 fs1] m1(2) s2 same
    obtain m2 p2 where m2: "ProviderStats (stats sm2) = Some m2" "m2 (Provider e1) = Some (Some p2)"
      "TotalUses p2 = 2" "ProviderAverageGenerationTime p2 = Fin False 150"
      by (auto simp: p1_def [symmetric] U1)
    have "f64_div (f64_add (f64_mul (ProviderAverageGenerationTime p2) (f64_of_int (sint (TotalUses p2))))
                (GenerationTime e3)) (f64_of_int (sint (TotalUses p2 + 1))) = Fin False 200"
      by (simp add: m2 g mean_200)
    from provider_mean_next [OF m2(1) _ this, of l f3 t3 fs2] m2(2) s3 same
    obtain m3 p3 where m3: "ProviderStats (stats sm3) = Some m3" "m3 (Provider e1) = Some (Some p3)"
      "ProviderAverageGenerationTime p3 = Fin False 200"
      by auto
    from m1 B1 m2 m3 show ?thesis unfolding p1_def [symmetric] by blast
  qed
  show ?thesis
    unfolding s1 s2 s3 prod.case using A1 A2 A3 P by (intro conjI impI) auto
qed

section \<open>Facts about GetProviderRanking\<close>

lemma inner_loop_done: "\<not> j < length r \<Longrightarrow> inner_loop i j r = r"
  by (subst inner_loop.simps) simp

lemma inner_loop_step:
  "j < length r \<Longrightarrow>
   inner_loop i j r =
     inner_loop i (j + 1)
       (if sint (uses (r ! i)) < sint (uses (r ! j)) then r[i := r ! j, j := r ! i] else r)"
  by (subst inner_loop.simps) simp

lemma inner_loop_spec:
  assumes "i < j" "j \<le> length r"
    and "\<forall>b. i < b \<and> b < j \<longrightarrow> sint (uses (r ! b)) \<le> sint (uses (r ! i))"
  shows "length (inner_loop i j r) = length r \<and> mset (inner_loop i j r) = mset r \<and>
         take i (inner_loop i j r) = take i r \<and>
         (\<forall>b. i < b \<and> b < length r \<longrightarrow>
            sint (uses (inner_loop i j r ! b)) \<le> sint (uses (inner_loop i j r ! i)))"
  using assms
proof (induction i j r rule: inner_loop.induct)
  case (1 i j r)
  show ?case
  proof (cases "j < length r")
    case False
    with "1.prems" have "j = length r" by simp
    with "1.prems" show ?thesis by (simp add: inner_loop_done)
  next
    case True
    define r1 where "r1 = (if sint (uses (r ! i)) < sint (uses (r ! j))
                           then r[i := r ! j, j := r ! i] else r)"
    have step: "inner_loop i j r = inner_loop i (j + 1) r1"
      unfolding r1_def by (rule inner_loop_step [OF True])
    have i: "i < length r" using "1.prems"(1) True by simp
    have len: "length r1 = length r" by (simp add: r1_def)
    have ms: "mset r1 = mset r"
      using mset_swap [OF True i, of ] by (simp add: r1_def)
    have tk: "take i r1 = take i r"
      using "1.prems"(1) by (simp add: r1_def)
    have pre: "\<forall>b. i < b \<and> b < j + 1 \<longrightarrow> sint (uses (r1 ! b)) \<le> sint (uses (r1 ! i))"
    proof (intro allI impI)
      fix b assume b: "i < b \<and> b < j + 1"
      show "sint (uses (r1 ! b)) \<le> sint (uses (r1 ! i))"
      proof (cases "sint (uses (r ! i)) < sint (uses (r ! j))")
        case swap: True
        then have r1: "r1 = r[i := r ! j, j := r ! i]" by (simp add: r1_def)
        have ri: "r1 ! i = r ! j" using "1.prems"(1) i True by (simp add: r1)
        show ?thesis
        proof (cases "b = j")
          case True
          then have "r1 ! b = r ! i" using \<open>j < length r\<close> by (simp add: r1)
          with swap ri show ?thesis by simp
        next
          case False
          with b have bj: "b < j" by simp
          then have "r1 ! b = r ! b" using b by (simp add: r1)
          moreover have "sint (uses (r ! b)) \<le> sint (uses (r ! i))"
            using "1.prems"(3) b bj by simp
          ultimately show ?thesis using swap ri by simp
        qed
      next
        case keep: False
        then have r1: "r1 = r" by (simp add: r1_def)
        show ?thesis
        proof (cases "b = j")
          case True
          with keep show ?thesis by (simp add: r1)
        next
          case False
          with b have "b < j" by simp
          with "1.prems"(3) b show ?thesis by (simp add: r1)
        qed
      qed
    qed
    have "i < j + 1" "j + 1 \<le> length r1" using "1.prems"(1) True by (simp_all add: len)
    from "1.IH" [OF True, folded r1_def, OF this pre]
    show ?thesis
      unfolding step by (simp add: len ms tk)
  qed
qed

lemma outer_loop_done: "\<not> i + 1 < length r \<Longrightarrow> outer_loop i r = r"
  by (subst outer_loop.simps) simp

lemma outer_loop_step:
  "i + 1 < length r \<Longrightarrow> outer_loop i r = outer_loop (i + 1) (inner_loop i (i + 1) r)"
  by (subst outer_loop.simps) simp

lemma outer_loop_spec:
  assumes "\<forall>a b. a < i \<and> a < b \<and> b < length r \<longrightarrow> sint (uses (r ! b)) \<le> sint (uses (r ! a))"
  shows "mset (outer_loop i r) = mset r \<and>
         (\<forall>a b. a < b \<and> b < length r \<longrightarrow>
            sint (uses (outer_loop i r ! b)) \<le> sint (uses (outer_loop i r ! a)))"
  using assms
proof (induction i r rule: outer_loop.induct)
  case (1 i r)
  show ?case
  proof (cases "i + 1 < length r")
    case False
    have "sint (uses (r ! b)) \<le> sint (uses (r ! a))" if "a < b \<and> b < length r" for a b
    proof -
      from that False have "a < i" by simp
      with "1.prems" that show ?thesis by blast
    qed
    then show ?thesis by (simp add: outer_loop_done [OF False])
  next
    case True
    define r1 where "r1 = inner_loop i (i + 1) r"
    have "i < i + 1" "i + 1 \<le> length r"
      "\<forall>b. i < b \<and> b < i + 1 \<longrightarrow> sint (uses (r ! b)) \<le> sint (uses (r ! i))"
      using True by simp_all
    from inner_loop_spec [OF this, folded r1_def]
    have len: "length r1 = length r" and ms: "mset r1 = mset r" and tk: "take i r1 = take i r"
      and top: "\<And>b. i < b \<Longrightarrow> b < length r \<Longrightarrow> sint (uses (r1 ! b)) \<le> sint (uses (r1 ! i))"
      by blast+
    have "mset (take i r1) + mset (drop i r1) = mset (take i r) + mset (drop i r)"
      unfolding mset_append [symmetric] append_take_drop_id by (rule ms)
    then have dr: "mset (drop i r1) = mset (drop i r)" by (simp add: tk)
    have low: "r1 ! a = r ! a" if "a < i" for a
      using that nth_take [of a i r1] nth_take [of a i r] by (simp add: tk)
    have inv: "\<forall>a b. a < i + 1 \<and> a < b \<and> b < length r1 \<longrightarrow>
                 sint (uses (r1 ! b)) \<le> sint (uses (r1 ! a))"
    proof (intro allI impI)
      fix a b assume ab: "a < i + 1 \<and> a < b \<and> b < length r1"
      show "sint (uses (r1 ! b)) \<le> sint (uses (r1 ! a))"
      proof (cases "a = i")
        case True
        with ab top [of b] show ?thesis by (simp add: len)
      next
        case False
        with ab have a: "a < i" by simp
        show ?thesis
        proof (cases "b < i")
          case True
          with a ab "1.prems" show ?thesis by (simp add: low len)
        next
          case False
          then have "r1 ! b = drop i r1 ! (b - i)" using ab by (simp add: len)
          moreover have "b - i < length (drop i r1)" using ab False by (simp add: less_diff_conv2 not_less)
          ultimately have "r1 ! b \<in> set (drop i r1)" by (metis nth_mem)
          then have "r1 ! b \<in> set (drop i r)" using dr by (metis set_mset_mset)
          then obtain c where c: "c < length (drop i r)" "drop i r ! c = r1 ! b"
            by (auto simp: in_set_conv_nth)
          then have "r ! (i + c) = r1 ! b" "a < i + c" "i + c < length r"
            using a by simp_all
          with "1.prems" a show ?thesis by (metis low)
        qed
      qed
    qed
    from "1.IH" [OF True, folded r1_def, OF inv]
    show ?thesis
      unfolding outer_loop_step [OF True] r1_def [symmetric] by (simp add: len ms)
  qed
qed

lemma collect_entries:
  "(\<forall>k\<in>set ks. \<exists>st. m k = Some (Some st)) \<Longrightarrow>
   collect m ks acc = Inr (acc @ map (usage_of m) ks)"
proof (induction ks arbitrary: acc)
  case Nil
  then show ?case by simp
next
  case (Cons k ks)
  then obtain st where "m k = Some (Some st)" by auto
  with Cons show ?case by (simp add: usage_of_def)
qed

lemma ranking_example:
  "GetProviderRanking [''Groq'', ''OpenAI'', ''Gemini'']
             (fresh_manager\<lparr>stats := fresh_UsageStats\<lparr>ProviderStats := Some
                [''OpenAI'' \<mapsto> Some (zero_ProviderStats\<lparr>TotalUses := 5\<rparr>),
                 ''Gemini'' \<mapsto> Some (zero_ProviderStats\<lparr>TotalUses := 3\<rparr>),
                 ''Groq'' \<mapsto> Some (zero_ProviderStats\<lparr>TotalUses := 1\<rparr>)]\<rparr>\<rparr>)
    = Inr [''OpenAI'', ''Gemini'', ''Groq'']"
  by (simp add: GetProviderRanking_def outer_loop.simps inner_loop.simps)

lemma RecordGeneration_no_nil:
  assumes "\<forall>m k. ProviderStats (stats sm) = Some m \<longrightarrow> m k \<noteq> Some None"
  shows "\<forall>m k. ProviderStats (stats (fst (snd (RecordGeneration l flt now e (sm, fs))))) = Some m
           \<longrightarrow> m k \<noteq> Some None"
proof (cases "ProviderStats (stats sm)")
  case None
  then show ?thesis by (simp add: RecordGeneration_stats update_global_counters)
next
  case (Some m0)
  with assms have "\<forall>k. m0 k \<noteq> Some None" by simp
  then show ?thesis by (simp add: RecordGeneration_stats Some)
qed

lemma RecordGenerations_no_nil:
  "\<forall>m k. ProviderStats (stats sm) = Some m \<longrightarrow> m k \<noteq> Some None \<Longrightarrow>
   \<forall>m k. ProviderStats (stats (fst (snd (RecordGenerations l calls (sm, fs))))) = Some m
           \<longrightarrow> m k \<noteq> Some None"
proof (induction calls arbitrary: sm fs)
  case Nil
  then show ?case by simp
next
  case (Cons c calls)
  obtain flt now e where c: "c = (flt, now, e)" by (cases c)
  obtain out sm1 fs1 where step: "RecordGeneration l flt now e (sm, fs) = (out, sm1, fs1)"
    by (cases "RecordGeneration l flt now e (sm, fs)")
  from RecordGeneration_no_nil [OF Cons.prems, of l flt now e fs] step
  have nn: "\<forall>m k. ProviderStats (stats sm1) = Some m \<longrightarrow> m k \<noteq> Some None" by simp
  show ?case
  proof (cases out)
    case (Returns err)
    with Cons.IH [OF nn, of fs1] show ?thesis
      by (simp add: c step split_beta)
  next
    case (Panics msg)
    with nn show ?thesis by (simp add: c step)
  qed
qed

lemma ranking_sorted_permutation:
  assumes keys: "distinct keys"
      "set keys = dom (case ProviderStats (stats sm) of None \<Rightarrow> Map.empty | Some m \<Rightarrow> m)"
    and entries: "\<forall>m k. ProviderStats (stats sm) = Some m \<longrightarrow> m k \<noteq> Some None"
  shows "\<exists>res. GetProviderRanking keys sm = Inr res \<and> mset res = mset keys \<and>
           (\<forall>a b. a < b \<and> b < length res \<longrightarrow>
              (\<exists>m sa sb. ProviderStats (stats sm) = Some m \<and>
                 m (res ! a) = Some (Some sa) \<and> m (res ! b) = Some (Some sb) \<and>
                 sint (TotalUses sb) \<le> sint (TotalUses sa)))"
proof -
  define m where "m = (case ProviderStats (stats sm) of None \<Rightarrow> Map.empty | Some m \<Rightarrow> m)"
  have ent: "\<exists>st. m k = Some (Some st)" if "k \<in> set keys" for k
  proof -
    from that keys(2) obtain v where v: "m k = Some v" by (auto simp: m_def [symmetric])
    then obtain m' where m': "ProviderStats (stats sm) = Some m'" "m' = m"
      by (cases "ProviderStats (stats sm)") (auto simp: m_def)
    with entries have "m k \<noteq> Some None" by blast
    with v show ?thesis by (cases v) auto
  qed
  define rankings where "rankings = map (usage_of m) keys"
  define sorted where "sorted = outer_loop 0 rankings"
  have col: "collect m keys [] = Inr rankings"
    using collect_entries [of keys m "[]"] ent by (simp add: rankings_def)
  have res: "GetProviderRanking keys sm = Inr (map provider sorted)"
    by (simp add: GetProviderRanking_def m_def [symmetric] col sorted_def)
  have "\<forall>a b. a < 0 \<and> a < b \<and> b < length rankings \<longrightarrow>
          sint (uses (rankings ! b)) \<le> sint (uses (rankings ! a))" by simp
  from outer_loop_spec [OF this, folded sorted_def]
  have ms: "mset sorted = mset rankings"
    and ord: "\<And>a b. a < b \<Longrightarrow> b < length rankings \<Longrightarrow>
                sint (uses (sorted ! b)) \<le> sint (uses (sorted ! a))"
    by blast+
  have len: "length sorted = length rankings" using ms by (metis size_mset)
  have "mset (map provider sorted) = image_mset provider (mset rankings)"
    by (simp add: ms)
  also have "\<dots> = mset (map provider rankings)" by simp
  also have "map provider rankings = keys"
    by (simp add: rankings_def usage_of_def comp_def)
  finally have perm: "mset (map provider sorted) = mset keys" .
  have elem: "\<exists>st. ProviderStats (stats sm) = Some m \<and>
                 m (map provider sorted ! a) = Some (Some st) \<and> uses (sorted ! a) = TotalUses st"
    if "a < length sorted" for a
  proof -
    from that have "sorted ! a \<in> set sorted" by simp
    then have "sorted ! a \<in> set rankings" using ms by (metis set_mset_mset)
    then obtain k where k: "k \<in> set keys" "sorted ! a = usage_of m k"
      by (auto simp: rankings_def)
    from ent [OF k(1)] obtain st where st: "m k = Some (Some st)" by blast
    then have "ProviderStats (stats sm) = Some m"
      by (cases "ProviderStats (stats sm)") (auto simp: m_def)
    with st k that show ?thesis by (simp add: usage_of_def)
  qed
  have "\<exists>m sa sb. ProviderStats (stats sm) = Some m \<and>
                 m (map provider sorted ! a) = Some (Some sa) \<and>
                 m (map provider sorted ! b) = Some (Some sb) \<and>
                 sint (TotalUses sb) \<le> sint (TotalUses sa)"
    if "a < b \<and> b < length (map provider sorted)" for a b
  proof -
    from that have a: "a < length sorted" and b: "b < length sorted" by simp_all
    from elem [OF a] elem [OF b] ord [of a b] that len show ?thesis
      by (metis length_map)
  qed
  with res perm show ?thesis by blast
qed

section \<open>The claims\<close>

text \<open>
  C1 (stats conservation): from a fresh, zero-valued ledger, any sequence of \<open>N\<close> calls of
  \<open>RecordGeneration\<close>, \<open>k\<close> of them with \<open>Success\<close> set, returns \<open>N\<close> times without a
  panic and leaves \<open>TotalGenerations = N\<close>, \<open>SuccessfulGenerations = k\<close> and
  \<open>FailedGenerations = N - k\<close>. The equalities are those of Go's 64-bit \<open>int\<close>; below
  \<open>2^63\<close> calls the signed values of the counters are the numbers themselves.
\<close>

theorem stats_conservation:
  "case RecordGenerations l calls (\<lparr>stats = fresh_UsageStats, filePath = path\<rparr>, fs) of
     (outs, sm, fs') \<Rightarrow>
       (let N = length calls; k = length (filter (\<lambda>(flt, now, e). Success e) calls)
        in length outs = N \<and> (\<forall>out\<in>set outs. \<exists>err. out = Returns err) \<and>
           TotalGenerations (stats sm) = of_nat N \<and>
           SuccessfulGenerations (stats sm) = of_nat k \<and>
           FailedGenerations (stats sm) = of_nat (N - k) \<and>
           (N < 2 ^ 63 \<longrightarrow>
              sint (TotalGenerations (stats sm)) = int N \<and>
              sint (SuccessfulGenerations (stats sm)) = int k \<and>
              sint (FailedGenerations (stats sm)) = int (N - k)))"
proof -
  let ?sm0 = "\<lparr>stats = fresh_UsageStats, filePath = path\<rparr>"
  let ?k = "length (filter (\<lambda>(flt, now, e). Success e) calls)"
  let ?f = "length (filter (\<lambda>(flt, now, e). \<not> Success e) calls)"
  have nn: "ProviderStats (stats ?sm0) \<noteq> None" by (simp add: fresh_UsageStats_def)
  have "?f + ?k = length calls"
    by (induction calls) auto
  then have f: "?f = length calls - ?k" and kN: "?k \<le> length calls" by simp_all
  obtain outs sm fs' where run: "RecordGenerations l calls (?sm0, fs) = (outs, sm, fs')"
    by (cases "RecordGenerations l calls (?sm0, fs)")
  from RecordGenerations_counts [OF nn, where l = l and calls = calls and fs = fs] run f
  have base: "length outs = length calls" "\<forall>out\<in>set outs. \<exists>err. out = Returns err"
    "TotalGenerations (stats sm) = of_nat (length calls)"
    "SuccessfulGenerations (stats sm) = of_nat ?k"
    "FailedGenerations (stats sm) = of_nat (length calls - ?k)"
    by (simp_all add: fresh_UsageStats_def)
  have "sint (TotalGenerations (stats sm)) = int (length calls) \<and>
        sint (SuccessfulGenerations (stats sm)) = int ?k \<and>
        sint (FailedGenerations (stats sm)) = int (length calls - ?k)" if "length calls < 2 ^ 63"
  proof -
    have "?k < 2 ^ 63" using kN that by (rule le_less_trans)
    moreover have "length calls - ?k < 2 ^ 63" using that by (rule le_less_trans [OF diff_le_self])
    ultimately show ?thesis unfolding base using that by (intro conjI sint_of_nat_small)
  qed
  with base show ?thesis by (simp add: run Let_def)
qed

theorem stats_conservation_witness:
  "(3::nat) < 2 ^ 63 \<and>
   (case RecordGenerations sample_lib
           [(no_faults, ''2025-01-01T10:00:00Z'', sample_event ''OpenAI'' True (Fin False 100) True False),
            (no_faults, ''2025-01-01T10:01:00Z'', sample_event ''Groq'' False (Fin False 200) True False),
            (no_faults, ''2025-01-01T10:02:00Z'', sample_event ''OpenAI'' True (Fin False 300) True True)]
           (\<lparr>stats = fresh_UsageStats, filePath = ''/f''\<rparr>, Map.empty) of
      (outs, sm, fs') \<Rightarrow>
        length outs = 3 \<and> sint (TotalGenerations (stats sm)) = 3 \<and>
        sint (SuccessfulGenerations (stats sm)) = 2 \<and> sint (FailedGenerations (stats sm)) = 1)"
  using stats_conservation [where l = sample_lib and calls =
           "[(no_faults, ''2025-01-01T10:00:00Z'', sample_event ''OpenAI'' True (Fin False 100) True False),
            (no_faults, ''2025-01-01T10:01:00Z'', sample_event ''Groq'' False (Fin False 200) True False),
            (no_faults, ''2025-01-01T10:02:00Z'', sample_event ''OpenAI'' True (Fin False 300) True True)]"
           and path = "''/f''" and fs = Map.empty]
  by (simp del: RecordGenerations.simps add: sample_event_def Let_def split: prod.splits)

text \<open>
  C2 (invariant): the fresh ledger satisfies the invariant (successful plus failed is the
  total, for the ledger and for every provider with an entry), and every call of
  \<open>RecordGeneration\<close>, hence every sequence of calls, preserves it, whether the call
  returns, with or without an error, or panics.
\<close>

theorem ledger_invariant_preserved:
  "ledger_invariant fresh_UsageStats \<and>
   (ledger_invariant (stats sm) \<longrightarrow>
      (case RecordGeneration l flt now e (sm, fs) of (out, sm', fs') \<Rightarrow> ledger_invariant (stats sm')) \<and>
      (case RecordGenerations l calls (sm, fs) of (outs, sm', fs') \<Rightarrow> ledger_invariant (stats sm')))"
proof -
  have a: "ledger_invariant fresh_UsageStats"
    by (simp add: ledger_invariant_def fresh_UsageStats_def)
  have b: "case RecordGeneration l flt now e (sm, fs) of (out, sm', fs') \<Rightarrow>
             ledger_invariant (stats sm')" if "ledger_invariant (stats sm)"
    using ledger_invariant_step [OF that, of l flt now e fs] by (simp add: split_beta)
  have c: "case RecordGenerations l calls (sm, fs) of (outs, sm', fs') \<Rightarrow>
             ledger_invariant (stats sm')" if "ledger_invariant (stats sm)"
    using ledger_invariant_run [OF that, of l calls fs] by (simp add: split_beta)
  show ?thesis
    by (intro conjI impI a b c)
qed

theorem ledger_invariant_preserved_witness:
  "ledger_invariant
     (fresh_UsageStats\<lparr>TotalGenerations := 3, SuccessfulGenerations := 2, FailedGenerations := 1,
        ProviderStats := Some [''OpenAI'' \<mapsto> Some (zero_ProviderStats
           \<lparr>Name := ''OpenAI'', TotalUses := 3, SuccessfulUses := 2, FailedUses := 1\<rparr>)]\<rparr>) \<and>
   (case RecordGeneration sample_lib no_faults ''2025-01-01T10:00:00Z''
           (sample_event ''OpenAI'' False (Fin False 100) True False)
           (fresh_manager\<lparr>stats := fresh_UsageStats
              \<lparr>TotalGenerations := 3, SuccessfulGenerations := 2, FailedGenerations := 1,
               ProviderStats := Some [''OpenAI'' \<mapsto> Some (zero_ProviderStats
                 \<lparr>Name := ''OpenAI'', TotalUses := 3, SuccessfulUses := 2, FailedUses := 1\<rparr>)]\<rparr>\<rparr>,
            Map.empty) of
      (out, sm', fs') \<Rightarrow> ledger_invariant (stats sm'))"
proof -
  let ?s = "fresh_UsageStats\<lparr>TotalGenerations := 3, SuccessfulGenerations := 2, FailedGenerations := 1,
        ProviderStats := Some [''OpenAI'' \<mapsto> Some (zero_ProviderStats
           \<lparr>Name := ''OpenAI'', TotalUses := 3, SuccessfulUses := 2, FailedUses := 1\<rparr>)]\<rparr>"
  have inv: "ledger_invariant ?s"
    unfolding ledger_invariant_def
  proof (intro conjI allI impI)
    show "SuccessfulGenerations ?s + FailedGenerations ?s = TotalGenerations ?s"
      by (simp add: fresh_UsageStats_def)
  next
    fix m k p
    assume "ProviderStats ?s = Some m" and "m k = Some (Some p)"
    then have "p = zero_ProviderStats
           \<lparr>Name := ''OpenAI'', TotalUses := 3, SuccessfulUses := 2, FailedUses := 1\<rparr>"
      by (auto split: if_splits)
    then show "SuccessfulUses p + FailedUses p = TotalUses p" by simp
  qed
  with ledger_invariant_preserved [where sm = "fresh_manager\<lparr>stats := ?s\<rparr>" and l = sample_lib
      and flt = no_faults and now = "''2025-01-01T10:00:00Z''"
      and e = "sample_event ''OpenAI'' False (Fin False 100) True False" and fs = Map.empty
      and calls = "[]"]
  show ?thesis by simp
qed

text \<open>
  C5 (cache counters): a call of \<open>RecordGeneration\<close> adds one to \<open>CacheHits\<close> exactly
  when the event has \<open>CacheChecked\<close> and \<open>CacheHit\<close>, adds one to \<open>CacheMisses\<close> exactly
  when it has \<open>CacheChecked\<close> and not \<open>CacheHit\<close>, and leaves both counters as they were
  when the event did not check the cache.
\<close>

theorem cache_counters:
  "case RecordGeneration l flt now e (sm, fs) of (out, sm', fs') \<Rightarrow>
     CacheHits (stats sm') = CacheHits (stats sm) + (if CacheChecked e \<and> CacheHit e then 1 else 0) \<and>
     CacheMisses (stats sm') = CacheMisses (stats sm) + (if CacheChecked e \<and> \<not> CacheHit e then 1 else 0) \<and>
     (CacheHits (stats sm') \<noteq> CacheHits (stats sm) \<longleftrightarrow> CacheChecked e \<and> CacheHit e) \<and>
     (CacheMisses (stats sm') \<noteq> CacheMisses (stats sm) \<longleftrightarrow> CacheChecked e \<and> \<not> CacheHit e)"
proof -
  obtain out sm' fs' where step: "RecordGeneration l flt now e (sm, fs) = (out, sm', fs')"
    by (cases "RecordGeneration l flt now e (sm, fs)")
  from RecordGeneration_stats [of l flt now e sm fs] step
  have "CacheHits (stats sm') = CacheHits (update_global now e (stats sm))"
    "CacheMisses (stats sm') = CacheMisses (update_global now e (stats sm))"
    by (simp_all split: option.splits)
  then show ?thesis
    by (simp add: step update_global_cache)
qed

text \<open>
  C10 (first use is written once): a call of \<open>RecordGeneration\<close> sets \<open>FirstUse\<close> to the
  time of the call only when it was empty and \<open>LastUse\<close> always; it sets \<open>LastUsed\<close> of the
  event's provider always and \<open>FirstUsed\<close> only when it makes the entry (the key was absent
  or held nil), and leaves every other entry alone. So over any sequence of calls a
  non-empty \<open>FirstUse\<close>, and the \<open>FirstUsed\<close> of every entry there is, stay what they were.
\<close>

theorem first_use_written_once:
  "(case RecordGeneration l flt now e (sm, fs) of (out, sm', fs') \<Rightarrow>
      FirstUse (stats sm') = (if FirstUse (stats sm) = [] then now else FirstUse (stats sm)) \<and>
      LastUse (stats sm') = now \<and>
      (\<forall>m. ProviderStats (stats sm) = Some m \<longrightarrow>
         (\<exists>m' p'. ProviderStats (stats sm') = Some m' \<and>
            m' (Provider e) = Some (Some p') \<and> LastUsed p' = now \<and>
            FirstUsed p' = (case m (Provider e) of Some (Some p) \<Rightarrow> FirstUsed p | _ \<Rightarrow> now) \<and>
            (\<forall>k. k \<noteq> Provider e \<longrightarrow> m' k = m k)))) \<and>
   (case RecordGenerations l calls (sm, fs) of (outs, sm', fs') \<Rightarrow>
      (FirstUse (stats sm) \<noteq> [] \<longrightarrow> FirstUse (stats sm') = FirstUse (stats sm)) \<and>
      (\<forall>m k p. ProviderStats (stats sm) = Some m \<longrightarrow> m k = Some (Some p) \<longrightarrow>
         (\<exists>m' p'. ProviderStats (stats sm') = Some m' \<and> m' k = Some (Some p') \<and>
                   FirstUsed p' = FirstUsed p)))"
proof -
  let ?s' = "stats (fst (snd (RecordGeneration l flt now e (sm, fs))))"
  have a: "FirstUse ?s' = (if FirstUse (stats sm) = [] then now else FirstUse (stats sm))"
    by (simp add: RecordGeneration_stats update_global_times split: option.splits)
  have b: "LastUse ?s' = now"
    by (simp add: RecordGeneration_stats update_global_times split: option.splits)
  have c: "\<exists>m' p'. ProviderStats ?s' = Some m' \<and>
            m' (Provider e) = Some (Some p') \<and> LastUsed p' = now \<and>
            FirstUsed p' = (case m (Provider e) of Some (Some p) \<Rightarrow> FirstUsed p | _ \<Rightarrow> now) \<and>
            (\<forall>k. k \<noteq> Provider e \<longrightarrow> m' k = m k)"
    if "ProviderStats (stats sm) = Some m" for m
    using that
    by (simp add: RecordGeneration_stats update_provider_times zero_ProviderStats_def
          split: option.splits)
  have d: "FirstUse (stats (fst (snd (RecordGenerations l calls (sm, fs))))) = FirstUse (stats sm)"
    if "FirstUse (stats sm) \<noteq> []"
    using that by (rule FirstUse_run)
  have e: "\<exists>m' p'. ProviderStats (stats (fst (snd (RecordGenerations l calls (sm, fs))))) = Some m' \<and>
             m' k = Some (Some p') \<and> FirstUsed p' = FirstUsed p"
    if "ProviderStats (stats sm) = Some m" "m k = Some (Some p)" for m k p
    using that by (rule FirstUsed_run)
  show ?thesis
    unfolding split_beta using a b c d e by blast
qed

theorem first_use_written_once_witness:
  "FirstUse (stats (fresh_manager\<lparr>stats := fresh_UsageStats
       \<lparr>FirstUse := ''2024-12-31T08:00:00Z'',
        ProviderStats := Some [''OpenAI'' \<mapsto> Some (zero_ProviderStats
          \<lparr>Name := ''OpenAI'', FirstUsed := ''2024-12-31T08:00:00Z''\<rparr>)]\<rparr>\<rparr>)) \<noteq> [] \<and>
   (case RecordGenerations sample_lib
           [(no_faults, ''2025-01-01T10:00:00Z'', sample_event ''OpenAI'' True (Fin False 100) True False),
            (no_faults, ''2025-01-01T10:01:00Z'', sample_event ''Groq'' False (Fin False 200) True False)]
           (fresh_manager\<lparr>stats := fresh_UsageStats
              \<lparr>FirstUse := ''2024-12-31T08:00:00Z'',
               ProviderStats := Some [''OpenAI'' \<mapsto> Some (zero_ProviderStats
                 \<lparr>Name := ''OpenAI'', FirstUsed := ''2024-12-31T08:00:00Z''\<rparr>)]\<rparr>\<rparr>, Map.empty) of
      (outs, sm', fs') \<Rightarrow>
        FirstUse (stats sm') = ''2024-12-31T08:00:00Z'' \<and>
        (\<exists>m' p'. ProviderStats (stats sm') = Some m' \<and> m' ''OpenAI'' = Some (Some p') \<and>
                  FirstUsed p' = ''2024-12-31T08:00:00Z''))"
proof -
  let ?p0 = "zero_ProviderStats\<lparr>Name := ''OpenAI'', FirstUsed := ''2024-12-31T08:00:00Z''\<rparr>"
  let ?m0 = "[''OpenAI'' \<mapsto> Some ?p0]"
  let ?sm0 = "fresh_manager\<lparr>stats := fresh_UsageStats
       \<lparr>FirstUse := ''2024-12-31T08:00:00Z'', ProviderStats := Some ?m0\<rparr>\<rparr>"
  let ?calls = "[(no_faults, ''2025-01-01T10:00:00Z'', sample_event ''OpenAI'' True (Fin False 100) True False),
            (no_faults, ''2025-01-01T10:01:00Z'', sample_event ''Groq'' False (Fin False 200) True False)]"
  let ?R = "stats (fst (snd (RecordGenerations sample_lib ?calls (?sm0, Map.empty))))"
  have h1: "FirstUse (stats ?sm0) \<noteq> []" by simp
  have h2: "ProviderStats (stats ?sm0) = Some ?m0" by simp
  have h3: "?m0 ''OpenAI'' = Some (Some ?p0)" by simp
  have h4: "FirstUse (stats ?sm0) = ''2024-12-31T08:00:00Z''" "FirstUsed ?p0 = ''2024-12-31T08:00:00Z''"
    by simp_all
  from first_use_written_once [where sm = ?sm0 and calls = ?calls and l = sample_lib
      and fs = Map.empty and flt = no_faults and now = "''2025-01-01T10:00:00Z''"
      and e = "sample_event ''OpenAI'' True (Fin False 100) True False"]
  have run: "(FirstUse (stats ?sm0) \<noteq> [] \<longrightarrow> FirstUse ?R = FirstUse (stats ?sm0)) \<and>
      (\<forall>m k p. ProviderStats (stats ?sm0) = Some m \<longrightarrow> m k = Some (Some p) \<longrightarrow>
         (\<exists>m' p'. ProviderStats ?R = Some m' \<and> m' k = Some (Some p') \<and>
                   FirstUsed p' = FirstUsed p))"
    unfolding split_beta by (rule conjunct2)
  from run h1 have a: "FirstUse ?R = FirstUse (stats ?sm0)" by blast
  from run h2 h3 have b: "\<exists>m' p'. ProviderStats ?R = Some m' \<and> m' ''OpenAI'' = Some (Some p') \<and>
                   FirstUsed p' = FirstUsed ?p0" by blast
  show ?thesis
    unfolding split_beta using h1 a b unfolding h4 by (intro conjI)
qed

text \<open>
  C7 (persist failure): on a ledger whose map is not nil, \<open>RecordGeneration\<close> returns what
  \<open>save\<close> returns on the updated manager. When that is an error, the manager has the global,
  cache and per-provider updates of the call all the same, and is the manager that the
  call leaves under any other libraries, faults and file system, in particular under
  those where \<open>save\<close> succeeds.
\<close>

theorem persist_failure_keeps_updates:
  "case RecordGeneration l flt now e (sm, fs) of (out, sm', fs') \<Rightarrow>
     (ProviderStats (stats sm) \<noteq> None \<longrightarrow> out = Returns (fst (save l flt fs sm'))) \<and>
     (\<forall>err. out = Returns (Some err) \<longrightarrow>
        fst (save l flt fs sm') = Some err \<and>
        TotalGenerations (stats sm') = TotalGenerations (stats sm) + 1 \<and>
        SuccessfulGenerations (stats sm') =
          SuccessfulGenerations (stats sm) + (if Success e then 1 else 0) \<and>
        FailedGenerations (stats sm') = FailedGenerations (stats sm) + (if Success e then 0 else 1) \<and>
        CacheHits (stats sm') =
          CacheHits (stats sm) + (if CacheChecked e \<and> CacheHit e then 1 else 0) \<and>
        CacheMisses (stats sm') =
          CacheMisses (stats sm) + (if CacheChecked e \<and> \<not> CacheHit e then 1 else 0) \<and>
        (\<exists>m. ProviderStats (stats sm) = Some m \<and>
           ProviderStats (stats sm') = Some (m(Provider e \<mapsto> Some (update_provider now e
             (case m (Provider e) of Some (Some p) \<Rightarrow> p
              | _ \<Rightarrow> zero_ProviderStats\<lparr>Name := Provider e, FirstUsed := now\<rparr>))))) \<and>
        (\<forall>l2 flt2 fs2. fst (snd (RecordGeneration l2 flt2 now e (sm, fs2))) = sm'))"
proof (cases "ProviderStats (stats sm)")
  case None
  then show ?thesis by (simp add: RecordGeneration_nil)
next
  case (Some m)
  show ?thesis
    unfolding RecordGeneration_Some [OF Some]
    by (simp add: Some update_global_counters update_global_cache)
qed

theorem persist_failure_keeps_updates_witness:
  "case RecordGeneration sample_lib (no_faults\<lparr>WriteFile_fault := Some ErrPermission\<rparr>)
          ''2025-01-01T10:00:00Z'' (sample_event ''OpenAI'' True (Fin False 100) True False)
          (fresh_manager, Map.empty) of
     (out, sm', fs') \<Rightarrow>
       out = Returns (Some (PathError ErrPermission)) \<and>
       TotalGenerations (stats sm') = 1 \<and> SuccessfulGenerations (stats sm') = 1 \<and>
       CacheMisses (stats sm') = 1 \<and>
       fst (snd (RecordGeneration sample_lib no_faults ''2025-01-01T10:00:00Z''
                  (sample_event ''OpenAI'' True (Fin False 100) True False)
                  (fresh_manager, Map.empty))) = sm'"
proof -
  let ?flt = "no_faults\<lparr>WriteFile_fault := Some ErrPermission\<rparr>"
  let ?e = "sample_event ''OpenAI'' True (Fin False 100) True False"
  let ?r = "RecordGeneration sample_lib ?flt ''2025-01-01T10:00:00Z'' ?e (fresh_manager, Map.empty)"
  have m: "ProviderStats (stats fresh_manager) = Some Map.empty"
    by (simp add: fresh_manager_def fresh_UsageStats_def)
  have out: "fst ?r = Returns (Some (PathError ErrPermission))"
    unfolding RecordGeneration_Some [OF m]
    by (simp add: save_def os_MkdirAll_def os_WriteFile_def no_faults_def sample_lib_def)
  have z: "TotalGenerations (stats fresh_manager) = 0" "SuccessfulGenerations (stats fresh_manager) = 0"
    "CacheMisses (stats fresh_manager) = 0"
    by (simp_all add: fresh_manager_def fresh_UsageStats_def)
  have ev: "Success ?e" "CacheChecked ?e" "\<not> CacheHit ?e" by (simp_all add: sample_event_def)
  from persist_failure_keeps_updates [where l = sample_lib and flt = ?flt
      and now = "''2025-01-01T10:00:00Z''" and e = ?e and sm = fresh_manager and fs = Map.empty]
  show ?thesis
    using out unfolding split_beta z by (simp add: ev)
qed

text \<open>
  C6 (loading at startup): when the path of the configuration is known,
  \<open>NewStatsManager\<close> returns the zero-valued ledger, and no error, if there is no file at
  the path of the statistics or the file there is empty; if the file is not empty and
  \<open>json.Unmarshal\<close> fails on it, \<open>NewStatsManager\<close> returns that error, wrapped, and no
  manager.
\<close>

theorem load_at_startup:
  "GetConfigPath l = Inr configPath \<longrightarrow>
     (let statsPath = filepath_Join l (filepath_Dir l configPath) ''usage_stats.json'';
          zero = \<lparr>stats = fresh_UsageStats, filePath = statsPath\<rparr>
      in (ReadFile_fault flt = None \<and> fs statsPath = None \<longrightarrow> NewStatsManager l flt fs = Inr zero) \<and>
         (ReadFile_fault flt = None \<and> fs statsPath = Some [] \<longrightarrow> NewStatsManager l flt fs = Inr zero) \<and>
         (\<forall>data err st. ReadFile_fault flt = None \<and> fs statsPath = Some data \<and> data \<noteq> [] \<and>
              json_Unmarshal l data fresh_UsageStats = (Some err, st) \<longrightarrow>
            NewStatsManager l flt fs =
              Inl (Wrapped ''failed to load existing stats'' (JsonError err))))"
  by (auto simp: NewStatsManager_def load_def os_ReadFile_def Let_def)

theorem load_at_startup_witness:
  "GetConfigPath sample_lib = Inr ''/home/u/.config/commit-msg/config.json'' \<and>
   NewStatsManager sample_lib no_faults Map.empty = Inr fresh_manager \<and>
   NewStatsManager sample_lib no_faults [''/home/u/.config/commit-msg/usage_stats.json'' \<mapsto> []]
     = Inr fresh_manager \<and>
   NewStatsManager sample_lib no_faults [''/home/u/.config/commit-msg/usage_stats.json'' \<mapsto> ''{not json'']
     = Inl (Wrapped ''failed to load existing stats'' (JsonError (SyntaxError ''invalid character'')))"
proof -
  have p: "GetConfigPath sample_lib = Inr ''/home/u/.config/commit-msg/config.json''"
    by (simp add: sample_lib_def)
  have sp: "filepath_Join sample_lib (filepath_Dir sample_lib ''/home/u/.config/commit-msg/config.json'')
              ''usage_stats.json'' = ''/home/u/.config/commit-msg/usage_stats.json''"
    by (simp add: sample_lib_def)
  have u: "json_Unmarshal sample_lib ''{not json'' fresh_UsageStats
             = (Some (SyntaxError ''invalid character''), fresh_UsageStats)"
    by (simp add: sample_lib_def)
  have f: "ReadFile_fault no_faults = None" by (simp add: no_faults_def)
  note t = load_at_startup [where l = sample_lib and configPath = "''/home/u/.config/commit-msg/config.json''"
      and flt = no_faults, unfolded Let_def sp, rule_format, OF p]
  from t [where fs = Map.empty] f
  have a: "NewStatsManager sample_lib no_faults Map.empty = Inr fresh_manager"
    by (simp add: fresh_manager_def)
  from t [where fs = "[''/home/u/.config/commit-msg/usage_stats.json'' \<mapsto> []]"] f
  have b: "NewStatsManager sample_lib no_faults [''/home/u/.config/commit-msg/usage_stats.json'' \<mapsto> []]
             = Inr fresh_manager"
    by (simp add: fresh_manager_def)
  from t [where fs = "[''/home/u/.config/commit-msg/usage_stats.json'' \<mapsto> ''{not json'']"] f u
  have c: "NewStatsManager sample_lib no_faults [''/home/u/.config/commit-msg/usage_stats.json'' \<mapsto> ''{not json'']
     = Inl (Wrapped ''failed to load existing stats'' (JsonError (SyntaxError ''invalid character'')))"
    by simp
  from p a b c show ?thesis by (intro conjI)
qed

text \<open>
  C3 (running mean): a call of \<open>RecordGeneration\<close> makes the average, of the ledger and
  of the event's provider, \<open>(oldAvg * (n - 1) + sample) / n\<close> in float64 arithmetic,
  \<open>n\<close> being the count after its increment by the call and the old average of a provider
  without an entry being zero. Three events of 100, 200 and 300 ms recorded one after the
  other into a fresh ledger leave the average at 100, then 150, then 200, and so for the
  provider when the three events name the same one.
\<close>

theorem running_mean:
  "(case RecordGeneration l flt now e (sm, fs) of (out, sm', fs') \<Rightarrow>
      (let n = TotalGenerations (stats sm')
       in n = TotalGenerations (stats sm) + 1 \<and>
          AverageGenerationTime (stats sm') =
            f64_div (f64_add (f64_mul (AverageGenerationTime (stats sm)) (f64_of_int (sint (n - 1))))
                             (GenerationTime e))
                    (f64_of_int (sint n))) \<and>
      (\<forall>m. ProviderStats (stats sm) = Some m \<longrightarrow>
         (\<exists>m' p'. ProviderStats (stats sm') = Some m' \<and> m' (Provider e) = Some (Some p') \<and>
            (let n = TotalUses p';
                 old = (case m (Provider e) of Some (Some p) \<Rightarrow> p | _ \<Rightarrow> zero_ProviderStats)
             in n = TotalUses old + 1 \<and>
                ProviderAverageGenerationTime p' =
                  f64_div (f64_add (f64_mul (ProviderAverageGenerationTime old)
                                            (f64_of_int (sint (n - 1))))
                                   (GenerationTime e))
                          (f64_of_int (sint n)))))) \<and>
   (GenerationTime e1 = Fin False 100 \<and> GenerationTime e2 = Fin False 200 \<and>
    GenerationTime e3 = Fin False 300 \<longrightarrow>
      (case RecordGeneration l f1 t1 e1 (\<lparr>stats = fresh_UsageStats, filePath = path\<rparr>, fs) of
         (o1, sm1, fs1) \<Rightarrow>
           AverageGenerationTime (stats sm1) = Fin False 100 \<and>
           (case RecordGeneration l f2 t2 e2 (sm1, fs1) of
              (o2, sm2, fs2) \<Rightarrow>
                AverageGenerationTime (stats sm2) = Fin False 150 \<and>
                (case RecordGeneration l f3 t3 e3 (sm2, fs2) of
                   (o3, sm3, fs3) \<Rightarrow>
                     AverageGenerationTime (stats sm3) = Fin False 200 \<and>
                     (Provider e2 = Provider e1 \<and> Provider e3 = Provider e1 \<longrightarrow>
                        (\<exists>m1 p1 m2 p2 m3 p3.
                           ProviderStats (stats sm1) = Some m1 \<and> m1 (Provider e1) = Some (Some p1) \<and>
                           ProviderAverageGenerationTime p1 = Fin False 100 \<and>
                           ProviderStats (stats sm2) = Some m2 \<and> m2 (Provider e1) = Some (Some p2) \<and>
                           ProviderAverageGenerationTime p2 = Fin False 150 \<and>
                           ProviderStats (stats sm3) = Some m3 \<and> m3 (Provider e1) = Some (Some p3) \<and>
                           ProviderAverageGenerationTime p3 = Fin False 200))))))"
proof (intro conjI impI)
  show "case RecordGeneration l flt now e (sm, fs) of (out, sm', fs') \<Rightarrow>
      (let n = TotalGenerations (stats sm')
       in n = TotalGenerations (stats sm) + 1 \<and>
          AverageGenerationTime (stats sm') =
            f64_div (f64_add (f64_mul (AverageGenerationTime (stats sm)) (f64_of_int (sint (n - 1))))
                             (GenerationTime e))
                    (f64_of_int (sint n))) \<and>
      (\<forall>m. ProviderStats (stats sm) = Some m \<longrightarrow>
         (\<exists>m' p'. ProviderStats (stats sm') = Some m' \<and> m' (Provider e) = Some (Some p') \<and>
            (let n = TotalUses p';
                 old = (case m (Provider e) of Some (Some p) \<Rightarrow> p | _ \<Rightarrow> zero_ProviderStats)
             in n = TotalUses old + 1 \<and>
                ProviderAverageGenerationTime p' =
                  f64_div (f64_add (f64_mul (ProviderAverageGenerationTime old)
                                            (f64_of_int (sint (n - 1))))
                                   (GenerationTime e))
                          (f64_of_int (sint n)))))"
    by (rule running_mean_step)
next
  assume "GenerationTime e1 = Fin False 100 \<and> GenerationTime e2 = Fin False 200 \<and>
    GenerationTime e3 = Fin False 300"
  then have g: "GenerationTime e1 = Fin False 100" "GenerationTime e2 = Fin False 200"
    "GenerationTime e3 = Fin False 300" by simp_all
  show "case RecordGeneration l f1 t1 e1 (\<lparr>stats = fresh_UsageStats, filePath = path\<rparr>, fs) of
         (o1, sm1, fs1) \<Rightarrow>
           AverageGenerationTime (stats sm1) = Fin False 100 \<and>
           (case RecordGeneration l f2 t2 e2 (sm1, fs1) of
              (o2, sm2, fs2) \<Rightarrow>
                AverageGenerationTime (stats sm2) = Fin False 150 \<and>
                (case RecordGeneration l f3 t3 e3 (sm2, fs2) of
                   (o3, sm3, fs3) \<Rightarrow>
                     AverageGenerationTime (stats sm3) = Fin False 200 \<and>
                     (Provider e2 = Provider e1 \<and> Provider e3 = Provider e1 \<longrightarrow>
                        (\<exists>m1 p1 m2 p2 m3 p3.
                           ProviderStats (stats sm1) = Some m1 \<and> m1 (Provider e1) = Some (Some p1) \<and>
                           ProviderAverageGenerationTime p1 = Fin False 100 \<and>
                           ProviderStats (stats sm2) = Some m2 \<and> m2 (Provider e1) = Some (Some p2) \<and>
                           ProviderAverageGenerationTime p2 = Fin False 150 \<and>
                           ProviderStats (stats sm3) = Some m3 \<and> m3 (Provider e1) = Some (Some p3) \<and>
                           ProviderAverageGenerationTime p3 = Fin False 200))))"
    by (rule running_mean_example [OF g])
qed

theorem running_mean_witness:
  "GenerationTime (sample_event ''OpenAI'' True (Fin False 100) True False) = Fin False 100 \<and>
   GenerationTime (sample_event ''OpenAI'' False (Fin False 200) True False) = Fin False 200 \<and>
   GenerationTime (sample_event ''OpenAI'' True (Fin False 300) True True) = Fin False 300 \<and>
   (case RecordGeneration sample_lib no_faults ''2025-01-01T10:00:00Z''
           (sample_event ''OpenAI'' True (Fin False 100) True False) (fresh_manager, Map.empty) of
      (o1, sm1, fs1) \<Rightarrow>
        AverageGenerationTime (stats sm1) = Fin False 100 \<and>
        (case RecordGeneration sample_lib no_faults ''2025-01-01T10:01:00Z''
                (sample_event ''OpenAI'' False (Fin False 200) True False) (sm1, fs1) of
           (o2, sm2, fs2) \<Rightarrow>
             AverageGenerationTime (stats sm2) = Fin False 150 \<and>
             (case RecordGeneration sample_lib no_faults ''2025-01-01T10:02:00Z''
                     (sample_event ''OpenAI'' True (Fin False 300) True True) (sm2, fs2) of
                (o3, sm3, fs3) \<Rightarrow>
                  AverageGenerationTime (stats sm3) = Fin False 200 \<and>
                  (\<exists>m3 p3. ProviderStats (stats sm3) = Some m3 \<and> m3 ''OpenAI'' = Some (Some p3) \<and>
                            ProviderAverageGenerationTime p3 = Fin False 200))))"
proof -
  let ?a = "sample_event ''OpenAI'' True (Fin False 100) True False"
  let ?b = "sample_event ''OpenAI'' False (Fin False 200) True False"
  let ?c = "sample_event ''OpenAI'' True (Fin False 300) True True"
  have g: "GenerationTime ?a = Fin False 100 \<and> GenerationTime ?b = Fin False 200 \<and>
           GenerationTime ?c = Fin False 300"
    by (simp add: sample_event_def)
  have p: "Provider ?a = ''OpenAI''" "Provider ?b = Provider ?a \<and> Provider ?c = Provider ?a"
    by (simp_all add: sample_event_def)
  note t = running_mean [where l = sample_lib and ?e1.0 = ?a and ?e2.0 = ?b and ?e3.0 = ?c
      and ?f1.0 = no_faults and ?f2.0 = no_faults and ?f3.0 = no_faults
      and ?t1.0 = "''2025-01-01T10:00:00Z''" and ?t2.0 = "''2025-01-01T10:01:00Z''"
      and ?t3.0 = "''2025-01-01T10:02:00Z''" and fs = Map.empty
      and path = "''/home/u/.config/commit-msg/usage_stats.json''"
      and sm = fresh_manager and e = ?a and flt = no_faults and now = "[]",
      THEN conjunct2, rule_format, OF g, folded fresh_manager_def]
  show ?thesis
    using g t p unfolding split_beta by (auto simp del: f64.inject)
qed

text \<open>
  C4 (derived rates): \<open>GetSuccessRate\<close> is \<open>0.0\<close> when \<open>TotalGenerations\<close> is zero and
  otherwise \<open>float64(SuccessfulGenerations) / float64(TotalGenerations) * 100\<close>;
  \<open>GetCacheHitRate\<close> is \<open>0.0\<close> when \<open>CacheHits + CacheMisses\<close> is zero and otherwise
  \<open>float64(CacheHits) / float64(CacheHits + CacheMisses) * 100\<close>. Neither is ever NaN, the
  divisor of either division is never a zero, and 3 hits with 1 miss give exactly 75.
\<close>

theorem derived_rates:
  "GetSuccessRate sm =
     (if TotalGenerations (stats sm) = 0 then Fin False 0
      else f64_mul (f64_div (f64_of_int (sint (SuccessfulGenerations (stats sm))))
                            (f64_of_int (sint (TotalGenerations (stats sm)))))
                   (f64_of_int 100)) \<and>
   GetCacheHitRate sm =
     (if CacheHits (stats sm) + CacheMisses (stats sm) = 0 then Fin False 0
      else f64_mul (f64_div (f64_of_int (sint (CacheHits (stats sm))))
                            (f64_of_int (sint (CacheHits (stats sm) + CacheMisses (stats sm)))))
                   (f64_of_int 100)) \<and>
   GetSuccessRate sm \<noteq> NaN \<and> GetCacheHitRate sm \<noteq> NaN \<and>
   (TotalGenerations (stats sm) \<noteq> 0 \<longrightarrow>
      \<not> is_zero (f64_of_int (sint (TotalGenerations (stats sm))))) \<and>
   (CacheHits (stats sm) + CacheMisses (stats sm) \<noteq> 0 \<longrightarrow>
      \<not> is_zero (f64_of_int (sint (CacheHits (stats sm) + CacheMisses (stats sm))))) \<and>
   (CacheHits (stats sm) = 3 \<and> CacheMisses (stats sm) = 1 \<longrightarrow> GetCacheHitRate sm = Fin False 75)"
proof (intro conjI impI)
  show "GetSuccessRate sm \<noteq> NaN"
    by (simp add: GetSuccessRate_def percentage_not_NaN)
  show "GetCacheHitRate sm \<noteq> NaN"
    by (simp add: GetCacheHitRate_def Let_def percentage_not_NaN)
  show "GetCacheHitRate sm = Fin False 75" if "CacheHits (stats sm) = 3 \<and> CacheMisses (stats sm) = 1"
    using that rate_75 by (simp add: GetCacheHitRate_def Let_def)
qed (simp_all add: GetSuccessRate_def GetCacheHitRate_def Let_def divisor_not_zero)

theorem derived_rates_witness:
  "CacheHits (stats (fresh_manager\<lparr>stats := fresh_UsageStats
       \<lparr>TotalGenerations := 4, SuccessfulGenerations := 4, CacheHits := 3, CacheMisses := 1\<rparr>\<rparr>)) = 3 \<and>
   CacheMisses (stats (fresh_manager\<lparr>stats := fresh_UsageStats
       \<lparr>TotalGenerations := 4, SuccessfulGenerations := 4, CacheHits := 3, CacheMisses := 1\<rparr>\<rparr>)) = 1 \<and>
   TotalGenerations (stats (fresh_manager\<lparr>stats := fresh_UsageStats
       \<lparr>TotalGenerations := 4, SuccessfulGenerations := 4, CacheHits := 3, CacheMisses := 1\<rparr>\<rparr>)) \<noteq> 0 \<and>
   GetCacheHitRate (fresh_manager\<lparr>stats := fresh_UsageStats
       \<lparr>TotalGenerations := 4, SuccessfulGenerations := 4, CacheHits := 3, CacheMisses := 1\<rparr>\<rparr>)
     = Fin False 75 \<and>
   \<not> is_zero (f64_of_int (sint (4 :: go_int))) \<and>
   GetCacheHitRate fresh_manager = Fin False 0"
proof -
  let ?sm = "fresh_manager\<lparr>stats := fresh_UsageStats
       \<lparr>TotalGenerations := 4, SuccessfulGenerations := 4, CacheHits := 3, CacheMisses := 1\<rparr>\<rparr>"
  have h: "CacheHits (stats ?sm) = 3" "CacheMisses (stats ?sm) = 1" "TotalGenerations (stats ?sm) = 4"
    by simp_all
  have z: "CacheHits (stats fresh_manager) + CacheMisses (stats fresh_manager) = 0"
    by (simp add: fresh_manager_def fresh_UsageStats_def)
  note c2 = conjunct2
  note d = derived_rates [of ?sm]
  from d [THEN c2, THEN c2, THEN c2, THEN c2, THEN c2, THEN c2] h
  have a1: "GetCacheHitRate ?sm = Fin False 75" by blast
  from d [THEN c2, THEN c2, THEN c2, THEN c2, THEN conjunct1]
  have a2: "\<not> is_zero (f64_of_int (sint (4 :: go_int)))" unfolding h by simp
  from derived_rates [of fresh_manager, THEN c2, THEN conjunct1]
  have b: "GetCacheHitRate fresh_manager = Fin False 0" unfolding z by simp
  from h a1 a2 b show ?thesis by simp
qed

text \<open>
  C8 (provider ranking): when no key of the map holds a nil entry, and the first loop
  meets every key of the map once, \<open>GetProviderRanking\<close> returns a permutation of the
  keys in which every earlier provider has at least the \<open>TotalUses\<close> of every later one.
  A nil map has no keys and gives the empty ranking. No key holds a nil entry in any
  ledger that calls of \<open>RecordGeneration\<close> have made of a fresh one.
\<close>

theorem provider_ranking_sorted:
  "(distinct keys \<and>
    set keys = dom (case ProviderStats (stats sm) of None \<Rightarrow> Map.empty | Some m \<Rightarrow> m) \<and>
    (\<forall>m k. ProviderStats (stats sm) = Some m \<longrightarrow> m k \<noteq> Some None) \<longrightarrow>
    (\<exists>res. GetProviderRanking keys sm = Inr res \<and> mset res = mset keys \<and>
       (\<forall>a b. a < b \<and> b < length res \<longrightarrow>
          (\<exists>m sa sb. ProviderStats (stats sm) = Some m \<and>
             m (res ! a) = Some (Some sa) \<and> m (res ! b) = Some (Some sb) \<and>
             sint (TotalUses sb) \<le> sint (TotalUses sa))))) \<and>
   (case RecordGenerations l calls (\<lparr>stats = fresh_UsageStats, filePath = path\<rparr>, fs) of
      (outs, sm', fs') \<Rightarrow>
        \<forall>m k. ProviderStats (stats sm') = Some m \<longrightarrow> m k \<noteq> Some None)"
proof (intro conjI impI)
  assume h: "distinct keys \<and>
    set keys = dom (case ProviderStats (stats sm) of None \<Rightarrow> Map.empty | Some m \<Rightarrow> m) \<and>
    (\<forall>m k. ProviderStats (stats sm) = Some m \<longrightarrow> m k \<noteq> Some None)"
  then have "distinct keys"
    "set keys = dom (case ProviderStats (stats sm) of None \<Rightarrow> Map.empty | Some m \<Rightarrow> m)"
    "\<forall>m k. ProviderStats (stats sm) = Some m \<longrightarrow> m k \<noteq> Some None"
    by blast+
  then show "\<exists>res. GetProviderRanking keys sm = Inr res \<and> mset res = mset keys \<and>
       (\<forall>a b. a < b \<and> b < length res \<longrightarrow>
          (\<exists>m sa sb. ProviderStats (stats sm) = Some m \<and>
             m (res ! a) = Some (Some sa) \<and> m (res ! b) = Some (Some sb) \<and>
             sint (TotalUses sb) \<le> sint (TotalUses sa)))"
    by (rule ranking_sorted_permutation)
next
  have "\<forall>m k. ProviderStats (stats \<lparr>stats = fresh_UsageStats, filePath = path\<rparr>) = Some m
          \<longrightarrow> m k \<noteq> Some None"
    by (simp add: fresh_UsageStats_def)
  from RecordGenerations_no_nil [OF this, of l calls fs]
  show "case RecordGenerations l calls (\<lparr>stats = fresh_UsageStats, filePath = path\<rparr>, fs) of
      (outs, sm', fs') \<Rightarrow>
        \<forall>m k. ProviderStats (stats sm') = Some m \<longrightarrow> m k \<noteq> Some None"
    by (simp add: split_beta)
qed

theorem provider_ranking_sorted_witness:
  "distinct [''Groq'', ''OpenAI'', ''Gemini''] \<and>
   set [''Groq'', ''OpenAI'', ''Gemini''] =
     dom [''OpenAI'' \<mapsto> Some (zero_ProviderStats\<lparr>TotalUses := 5\<rparr>),
          ''Gemini'' \<mapsto> Some (zero_ProviderStats\<lparr>TotalUses := 3\<rparr>),
          ''Groq'' \<mapsto> Some (zero_ProviderStats\<lparr>TotalUses := 1\<rparr>)] \<and>
   (\<exists>res. GetProviderRanking [''Groq'', ''OpenAI'', ''Gemini'']
             (fresh_manager\<lparr>stats := fresh_UsageStats\<lparr>ProviderStats := Some
                [''OpenAI'' \<mapsto> Some (zero_ProviderStats\<lparr>TotalUses := 5\<rparr>),
                 ''Gemini'' \<mapsto> Some (zero_ProviderStats\<lparr>TotalUses := 3\<rparr>),
                 ''Groq'' \<mapsto> Some (zero_ProviderStats\<lparr>TotalUses := 1\<rparr>)]\<rparr>\<rparr>) = Inr res \<and>
          mset res = mset [''Groq'', ''OpenAI'', ''Gemini'']) \<and>
   GetProviderRanking [''Groq'', ''OpenAI'', ''Gemini'']
     (fresh_manager\<lparr>stats := fresh_UsageStats\<lparr>ProviderStats := Some
        [''OpenAI'' \<mapsto> Some (zero_ProviderStats\<lparr>TotalUses := 5\<rparr>),
         ''Gemini'' \<mapsto> Some (zero_ProviderStats\<lparr>TotalUses := 3\<rparr>),
         ''Groq'' \<mapsto> Some (zero_ProviderStats\<lparr>TotalUses := 1\<rparr>)]\<rparr>\<rparr>)
     = Inr [''OpenAI'', ''Gemini'', ''Groq'']"
proof -
  let ?m = "[''OpenAI'' \<mapsto> Some (zero_ProviderStats\<lparr>TotalUses := 5\<rparr>),
             ''Gemini'' \<mapsto> Some (zero_ProviderStats\<lparr>TotalUses := 3\<rparr>),
             ''Groq'' \<mapsto> Some (zero_ProviderStats\<lparr>TotalUses := 1\<rparr>)]"
  let ?sm = "fresh_manager\<lparr>stats := fresh_UsageStats\<lparr>ProviderStats := Some ?m\<rparr>\<rparr>"
  let ?keys = "[''Groq'', ''OpenAI'', ''Gemini'']"
  have d: "distinct ?keys" by simp
  have s: "set ?keys = dom ?m" by auto
  then have s': "set ?keys = dom (case ProviderStats (stats ?sm) of None \<Rightarrow> Map.empty | Some m \<Rightarrow> m)"
    by simp
  have e: "\<forall>m k. ProviderStats (stats ?sm) = Some m \<longrightarrow> m k \<noteq> Some None" by auto
  from provider_ranking_sorted [where keys = ?keys and sm = ?sm and calls = "[]",
      THEN conjunct1, rule_format, OF conjI [OF d conjI [OF s' e]]]
    d s ranking_example
  show ?thesis by blast
qed

text \<open>
  C8 as stated, for every ledger state, fails where a key holds a nil entry, as after
  loading a statistics file in which a provider is \<open>null\<close>: the first loop reads
  \<open>TotalUses\<close> through the nil pointer and the call panics instead of returning a ranking.
\<close>

theorem provider_ranking_nil_entry:
  "GetProviderRanking [''OpenAI'']
     (fresh_manager\<lparr>stats := fresh_UsageStats\<lparr>ProviderStats := Some [''OpenAI'' \<mapsto> None]\<rparr>\<rparr>)
     = Inl ''invalid memory address or nil pointer dereference'' \<and>
   set [''OpenAI''] = dom [''OpenAI'' \<mapsto> (None :: ProviderStats option)]"
  by (simp add: GetProviderRanking_def)

end
